theory Spec2Isabelle
  imports Complex_Main "HOL-Library.Multiset"
begin

section \<open>Grouping, aggregating and sorting bookings\<close>

text \<open>
  A shallow embedding of \<^verbatim>\<open>getAggregatedValue\<close> and \<^verbatim>\<open>transformData\<close> of
  \<^verbatim>\<open>src/HotelBookingDashboard.tsx\<close>, together with the library and language operations
  the two functions call: lodash \<^verbatim>\<open>get\<close> and \<^verbatim>\<open>groupBy\<close>, \<^verbatim>\<open>Object.entries\<close>,
  \<^verbatim>\<open>Array.prototype.sort\<close>, \<^verbatim>\<open>Math.min\<close>, \<^verbatim>\<open>Math.max\<close>, number division and
  truthiness.

  Numbers. The numeric fields of a booking hold integers (\<open>int\<close>), as every booking of
  the repository does. A computed aggregate is a \<open>jsnum\<close>: a finite rational (the
  average of integers), one of the two infinities, or not-a-number. Arithmetic on finite
  values is exact; rounding, overflow to infinity and the negative zero of IEEE doubles
  are not represented.
\<close>

subsection \<open>Data model\<close>

datatype jsnum = Fin rat | PInf | NInf | NaN

text \<open>\<^verbatim>\<open>interface Booking\<close>; an optional field that is absent is \<open>None\<close>.\<close>

record Location =
  city :: string
  country :: string

record Booking =
  booking_id :: int
  category :: string
  location :: Location
  price :: int
  nights :: "int option"
  passengers :: "int option"

text \<open>\<^verbatim>\<open>type sortFields = 'price' | 'nights' | 'passengers'\<close>, and the property name each
  literal stands for.\<close>

datatype sortFields = Price | Nights | Passengers

fun field_name :: "sortFields \<Rightarrow> string" where
  "field_name Price = ''price''"
| "field_name Nights = ''nights''"
| "field_name Passengers = ''passengers''"

datatype sortOrder = asc | desc

record SortBy =
  field :: sortFields
  order :: sortOrder

text \<open>\<^verbatim>\<open>groupBy: string | string[]\<close>.\<close>

datatype GroupBy = GString string | GArray "string list"

text \<open>The options. \<open>aggregations\<close> is a \<^verbatim>\<open>Record<string, ...>\<close>: a map from property names
  to the aggregation kind, kept as the string the \<^verbatim>\<open>switch\<close> compares.\<close>

record Options =
  groupBy :: GroupBy
  aggregations :: "string \<rightharpoonup> string"
  sortBy :: SortBy

text \<open>The values a property path of a booking resolves to.\<close>

datatype jsval = Undefined | Num int | Str string | Obj Location

text \<open>
  \<^verbatim>\<open>type Result = Record<string, any>\<close>: an object built by the literal
  \<^verbatim>\<open>{[group]: key, aggregates: ..., items: ..., count: ...}\<close>, a map from property names
  to values. \<open>'i\<close> is what \<^verbatim>\<open>items\<close> holds: the list itself in the value model, the
  address of the array in the store model further down.
\<close>

datatype 'i resval =
    Key string
  | Aggs "string \<rightharpoonup> jsnum"
  | Items 'i
  | Count nat

type_synonym 'i Result = "string \<rightharpoonup> 'i resval"

subsection \<open>Language operations\<close>

text \<open>Truthiness of a number (\<^verbatim>\<open>if (price)\<close>): every number but zero and not-a-number.\<close>

fun truthy :: "jsnum \<Rightarrow> bool" where
  "truthy (Fin r) = (r \<noteq> 0)"
| "truthy NaN = False"
| "truthy PInf = True"
| "truthy NInf = True"

text \<open>Truthiness of a property that is a string or missing (\<^verbatim>\<open>aggregations.price ? ...\<close>):
  \<^verbatim>\<open>undefined\<close> and the empty string are falsy.\<close>

fun truthy_str :: "string option \<Rightarrow> bool" where
  "truthy_str None = False"
| "truthy_str (Some s) = (s \<noteq> [])"

text \<open>Division of two finite numbers: \<^verbatim>\<open>0 / 0\<close> is not-a-number, \<^verbatim>\<open>x / 0\<close> is infinite.\<close>

definition js_div :: "rat \<Rightarrow> rat \<Rightarrow> jsnum" where
  "js_div a b =
     (if b \<noteq> 0 then Fin (a / b)
      else if a = 0 then NaN
      else if 0 < a then PInf else NInf)"

text \<open>\<^verbatim>\<open>Math.min(...values)\<close> and \<^verbatim>\<open>Math.max(...values)\<close> on finite arguments: the
  reduction starts from \<open>+\<infinity>\<close> (respectively \<open>-\<infinity>\<close>), which is the result for no argument.\<close>

fun js_min :: "jsnum \<Rightarrow> int \<Rightarrow> jsnum" where
  "js_min (Fin r) v = Fin (min r (of_int v))"
| "js_min PInf v = Fin (of_int v)"
| "js_min NInf v = NInf"
| "js_min NaN v = NaN"

fun js_max :: "jsnum \<Rightarrow> int \<Rightarrow> jsnum" where
  "js_max (Fin r) v = Fin (max r (of_int v))"
| "js_max NInf v = Fin (of_int v)"
| "js_max PInf v = PInf"
| "js_max NaN v = NaN"

definition Math_min :: "int list \<Rightarrow> jsnum" where
  "Math_min values = foldl js_min PInf values"

definition Math_max :: "int list \<Rightarrow> jsnum" where
  "Math_max values = foldl js_max NInf values"

text \<open>The decimal digits of a natural number, and \<^verbatim>\<open>String(n)\<close> for an integer. (An
  integer of 22 or more digits, which JavaScript prints with an exponent, is printed in
  full.)\<close>

definition digit_char :: "nat \<Rightarrow> char" where
  "digit_char d = ''0123456789'' ! d"

function string_of_nat :: "nat \<Rightarrow> string" where
  "string_of_nat n =
     (if n < 10 then [digit_char n]
      else string_of_nat (n div 10) @ [digit_char (n mod 10)])"
  by pat_completeness auto
termination
  by (relation "measure (\<lambda>n. n)") auto

declare string_of_nat.simps [simp del]

definition string_of_int :: "int \<Rightarrow> string" where
  "string_of_int i =
     (if i < 0 then CHR ''-'' # string_of_nat (nat (- i)) else string_of_nat (nat i))"

text \<open>The property key a value is coerced to when it indexes an object.\<close>

fun toString :: "jsval \<Rightarrow> string" where
  "toString Undefined = ''undefined''"
| "toString (Num n) = string_of_int n"
| "toString (Str s) = s"
| "toString (Obj l) = ''[object Object]''"

text \<open>
  An array index is a property key that is the canonical decimal form of an integer
  between 0 and \<open>2^32 - 2\<close>. \<open>array_index\<close> reads the integer of such a key.
\<close>

definition digit_value :: "char \<Rightarrow> int" where
  "digit_value c = of_char c - 48"

definition is_digit :: "char \<Rightarrow> bool" where
  "is_digit c = (48 \<le> (of_char c :: int) \<and> (of_char c :: int) \<le> 57)"

definition digits_value :: "string \<Rightarrow> int" where
  "digits_value s = foldl (\<lambda>n c. 10 * n + digit_value c) 0 s"

definition array_index :: "string \<Rightarrow> int option" where
  "array_index s =
     (if s = [] then None
      else if list_all is_digit s then
        (if hd s = CHR ''0'' \<and> s \<noteq> ''0'' then None
         else if digits_value s \<le> 4294967294 then Some (digits_value s)
         else None)
      else None)"

definition is_array_index :: "string \<Rightarrow> bool" where
  "is_array_index s = (array_index s \<noteq> None)"

definition index_value :: "string \<Rightarrow> int" where
  "index_value s = (case array_index s of Some n \<Rightarrow> n | None \<Rightarrow> 0)"

text \<open>
  An object whose properties are all created by assignment is an association list in
  creation order. \<^verbatim>\<open>Object.entries\<close> lists the array-index keys first, in ascending
  numeric order, and then the other keys in creation order.
\<close>

definition Object_entries :: "(string \<times> 'v) list \<Rightarrow> (string \<times> 'v) list" where
  "Object_entries obj =
     sort_key (\<lambda>kv. index_value (fst kv)) (filter (\<lambda>kv. is_array_index (fst kv)) obj)
     @ filter (\<lambda>kv. \<not> is_array_index (fst kv)) obj"

text \<open>
  \<^verbatim>\<open>items.sort(compare)\<close>: the sort is stable, and with a consistent comparator every
  stable sort returns the same list; it is modelled as the insertion sort that places an
  element before the first one it does not compare greater than.
\<close>

fun sort_insert :: "('a \<Rightarrow> 'a \<Rightarrow> int) \<Rightarrow> 'a \<Rightarrow> 'a list \<Rightarrow> 'a list" where
  "sort_insert compare x [] = [x]"
| "sort_insert compare x (y # ys) =
     (if compare x y \<le> 0 then x # y # ys else y # sort_insert compare x ys)"

definition Array_sort :: "('a \<Rightarrow> 'a \<Rightarrow> int) \<Rightarrow> 'a list \<Rightarrow> 'a list" where
  "Array_sort compare xs = foldr (sort_insert compare) xs []"

subsection \<open>lodash\<close>

text \<open>
  \<^verbatim>\<open>get\<close> and \<^verbatim>\<open>groupBy\<close> are functions of the lodash library, which the source imports
  (\<^verbatim>\<open>import get from 'lodash/get'\<close>, \<^verbatim>\<open>import lGroupBy from 'lodash/groupBy'\<close>).

  \<^verbatim>\<open>get(object, path)\<close>: the path is a dot-delimited string that is resolved segment by
  segment through the own properties of the booking and of its nested \<^verbatim>\<open>location\<close>; when
  a segment is missing the result is \<^verbatim>\<open>undefined\<close>. (lodash's bracket syntax, and the
  properties a string or a number inherits from its prototype, are not represented.)
\<close>

fun split_path :: "string \<Rightarrow> string \<Rightarrow> string list" where
  "split_path acc [] = [acc]"
| "split_path acc (c # cs) =
     (if c = CHR ''.'' then acc # split_path [] cs else split_path (acc @ [c]) cs)"

definition Booking_prop :: "Booking \<Rightarrow> string \<Rightarrow> jsval" where
  "Booking_prop b k =
     (if k = ''id'' then Num (booking_id b)
      else if k = ''category'' then Str (category b)
      else if k = ''location'' then Obj (location b)
      else if k = ''price'' then Num (price b)
      else if k = ''nights'' then (case nights b of None \<Rightarrow> Undefined | Some n \<Rightarrow> Num n)
      else if k = ''passengers'' then (case passengers b of None \<Rightarrow> Undefined | Some n \<Rightarrow> Num n)
      else Undefined)"

fun jsval_prop :: "jsval \<Rightarrow> string \<Rightarrow> jsval" where
  "jsval_prop (Obj l) k =
     (if k = ''city'' then Str (city l)
      else if k = ''country'' then Str (country l)
      else Undefined)"
| "jsval_prop v k = Undefined"

definition get :: "Booking \<Rightarrow> string \<Rightarrow> jsval" where
  "get obj path =
     (case split_path [] path of
        [] \<Rightarrow> Undefined
      | k # ks \<Rightarrow> foldl jsval_prop (Booking_prop obj k) ks)"

text \<open>\<^verbatim>\<open>get(item, field)\<close> for one of the three numeric fields: the number, or \<open>None\<close> for
  \<^verbatim>\<open>undefined\<close>.\<close>

definition get_number :: "Booking \<Rightarrow> sortFields \<Rightarrow> int option" where
  "get_number item f =
     (case get item (field_name f) of Num n \<Rightarrow> Some n | _ \<Rightarrow> None)"

text \<open>\<^verbatim>\<open>get(a, sortBy.field, 0)\<close> and \<^verbatim>\<open>get(item, field) ?? 0\<close>: the default replaces
  \<^verbatim>\<open>undefined\<close>.\<close>

definition get_or_zero :: "Booking \<Rightarrow> sortFields \<Rightarrow> int" where
  "get_or_zero item f = (case get_number item f of None \<Rightarrow> 0 | Some n \<Rightarrow> n)"

text \<open>
  \<^verbatim>\<open>groupBy(collection, iteratee)\<close> scans the collection from the first element to the
  last; the key of an element is the iteratee's value coerced to a property key; an
  element whose key the result object already has is pushed onto that key's array, and
  otherwise the key is created with a new one-element array.
\<close>

fun assign_value :: "(string \<times> 'a list) list \<Rightarrow> string \<Rightarrow> 'a \<Rightarrow> (string \<times> 'a list) list" where
  "assign_value [] k v = [(k, [v])]"
| "assign_value ((k', vs) # rest) k v =
     (if k' = k then (k', vs @ [v]) # rest else (k', vs) # assign_value rest k v)"

definition lGroupBy :: "'a list \<Rightarrow> ('a \<Rightarrow> jsval) \<Rightarrow> (string \<times> 'a list) list" where
  "lGroupBy collection iteratee =
     foldl (\<lambda>result v. assign_value result (toString (iteratee v)) v) [] collection"

subsection \<open>The source functions\<close>

text \<open>
  \<^verbatim>\<open>getAggregatedValue(items, field, aggregation)\<close>. The function is not exported and
  \<^verbatim>\<open>transformData\<close> calls it with the literals \<^verbatim>\<open>'price'\<close>, \<^verbatim>\<open>'nights'\<close> and
  \<^verbatim>\<open>'passengers'\<close> only, so \<open>field\<close> is a \<open>sortFields\<close>.
\<close>

definition field_values :: "Booking list \<Rightarrow> sortFields \<Rightarrow> int list" where
  "field_values items f = filter (\<lambda>v. v \<noteq> 0) (map (\<lambda>item. get_or_zero item f) items)"

definition getAggregatedValue :: "Booking list \<Rightarrow> sortFields \<Rightarrow> string \<Rightarrow> jsnum" where
  "getAggregatedValue items f aggregation =
     (let values = field_values items f in
      if aggregation = ''sum'' then Fin (of_int (foldl (+) 0 values))
      else if aggregation = ''avg'' then
        js_div (of_int (foldl (+) 0 values)) (of_nat (length values))
      else if aggregation = ''min'' then Math_min values
      else if aggregation = ''max'' then Math_max values
      else if aggregation = ''count'' then Fin (of_nat (length values))
      else Fin 0)"

text \<open>One aggregate of \<^verbatim>\<open>transformData\<close>:
  \<^verbatim>\<open>aggregations.price ? getAggregatedValue(items, 'price', aggregations.price) : 0\<close>.\<close>

definition aggregate_of :: "(string \<rightharpoonup> string) \<Rightarrow> Booking list \<Rightarrow> sortFields \<Rightarrow> jsnum" where
  "aggregate_of aggs items f =
     (case aggs (field_name f) of
        None \<Rightarrow> Fin 0
      | Some a \<Rightarrow> if truthy_str (Some a) then getAggregatedValue items f a else Fin 0)"

text \<open>The \<^verbatim>\<open>_aggregations\<close> object: a field is assigned when its value is truthy.\<close>

definition set_if_truthy :: "(string \<rightharpoonup> jsnum) \<Rightarrow> sortFields \<Rightarrow> jsnum \<Rightarrow> (string \<rightharpoonup> jsnum)" where
  "set_if_truthy obj f v = (if truthy v then obj(field_name f \<mapsto> v) else obj)"

definition build_aggregates :: "(string \<rightharpoonup> string) \<Rightarrow> Booking list \<Rightarrow> (string \<rightharpoonup> jsnum)" where
  "build_aggregates aggs items =
     (let price = aggregate_of aggs items Price;
          nights = aggregate_of aggs items Nights;
          passengers = aggregate_of aggs items Passengers;
          a0 = Map.empty;
          a1 = set_if_truthy a0 Price price;
          a2 = set_if_truthy a1 Nights nights;
          a3 = set_if_truthy a2 Passengers passengers
      in a3)"

text \<open>The comparator of \<^verbatim>\<open>items.sort\<close>.\<close>

definition compare_items :: "SortBy \<Rightarrow> Booking \<Rightarrow> Booking \<Rightarrow> int" where
  "compare_items sb a b =
     (if order sb = asc
      then get_or_zero a (field sb) - get_or_zero b (field sb)
      else get_or_zero b (field sb) - get_or_zero a (field sb))"

text \<open>The object literal of one group. Properties are written from left to right, so
  \<^verbatim>\<open>aggregates\<close>, \<^verbatim>\<open>items\<close> and \<^verbatim>\<open>count\<close> replace a group field of the same name.\<close>

definition make_result :: "Options \<Rightarrow> string \<Rightarrow> string \<times> Booking list \<Rightarrow> (Booking list) Result" where
  "make_result options grp entry =
     (let key = fst entry; items = snd entry;
          aggs = build_aggregates (aggregations options) items;
          sorted = Array_sort (compare_items (sortBy options)) items
      in Map.empty(grp \<mapsto> Key key,
                   ''aggregates'' \<mapsto> Aggs aggs,
                   ''items'' \<mapsto> Items sorted,
                   ''count'' \<mapsto> Count (length sorted)))"

definition allGroupBy :: "GroupBy \<Rightarrow> string list" where
  "allGroupBy g = (case g of GString s \<Rightarrow> [s] | GArray gs \<Rightarrow> gs)"

text \<open>\<^verbatim>\<open>transformData(arr, options)\<close>: the two nested loops push onto \<^verbatim>\<open>results\<close>.\<close>

definition transformData :: "Booking list \<Rightarrow> Options \<Rightarrow> (Booking list) Result list" where
  "transformData arr options =
     foldl (\<lambda>results grp.
              let groupedData = lGroupBy arr (\<lambda>obj. get obj grp)
              in foldl (\<lambda>results entry. results @ [make_result options grp entry])
                       results (Object_entries groupedData))
           [] (allGroupBy (groupBy options))"

text \<open>The properties of a result, read back.\<close>

definition items_of :: "(Booking list) Result \<Rightarrow> Booking list" where
  "items_of e = (case e ''items'' of Some (Items xs) \<Rightarrow> xs | _ \<Rightarrow> [])"

definition aggregates_of :: "'i Result \<Rightarrow> (string \<rightharpoonup> jsnum)" where
  "aggregates_of e = (case e ''aggregates'' of Some (Aggs a) \<Rightarrow> a | _ \<Rightarrow> Map.empty)"

definition key_of :: "string \<Rightarrow> 'i Result \<Rightarrow> string option" where
  "key_of grp e = (case e grp of Some (Key k) \<Rightarrow> Some k | _ \<Rightarrow> None)"

text \<open>The entries one iteration of the outer loop pushes: those of one field path.\<close>

definition group_entries :: "Booking list \<Rightarrow> Options \<Rightarrow> string \<Rightarrow> (Booking list) Result list" where
  "group_entries arr options grp =
     map (make_result options grp) (Object_entries (lGroupBy arr (\<lambda>obj. get obj grp)))"

text \<open>The group key of a booking for a field path.\<close>

definition group_key :: "string \<Rightarrow> Booking \<Rightarrow> string" where
  "group_key grp obj = toString (get obj grp)"

text \<open>The distinct elements of a list, in the order of their first occurrence.\<close>

definition first_seen :: "'a list \<Rightarrow> 'a list" where
  "first_seen ks = rev (remdups (rev ks))"

text \<open>The buckets of a list under a key function: one per distinct key, in the order
  the keys are first seen, each holding the elements of that key in list order.\<close>

definition buckets :: "('a \<Rightarrow> string) \<Rightarrow> 'a list \<Rightarrow> (string \<times> 'a list) list" where
  "buckets key xs = map (\<lambda>k. (k, filter (\<lambda>y. key y = k) xs)) (first_seen (map key xs))"

text \<open>The order in which \<^verbatim>\<open>Object.entries\<close> lists keys that were created in the order
  \<open>ks\<close>.\<close>

definition key_order :: "string list \<Rightarrow> string list" where
  "key_order ks =
     sort_key index_value (filter is_array_index ks) @ filter (\<lambda>k. \<not> is_array_index k) ks"

text \<open>The keys of one field path, in the order of the entries.\<close>

definition entry_keys :: "Booking list \<Rightarrow> string \<Rightarrow> string list" where
  "entry_keys arr grp = key_order (first_seen (map (group_key grp) arr))"

subsection \<open>The sample data of the source\<close>

text \<open>\<^verbatim>\<open>export const bookings\<close> and the options of the call that computes \<^verbatim>\<open>answer\<close>.\<close>

definition booking1 :: Booking where
  "booking1 = \<lparr>booking_id = 1, category = ''Hotel'',
     location = \<lparr>city = ''Bangkok'', country = ''TH''\<rparr>,
     price = 120, nights = Some 2, passengers = None\<rparr>"

definition booking2 :: Booking where
  "booking2 = \<lparr>booking_id = 2, category = ''Flight'',
     location = \<lparr>city = ''Tokyo'', country = ''JP''\<rparr>,
     price = 450, nights = None, passengers = Some 1\<rparr>"

definition booking3 :: Booking where
  "booking3 = \<lparr>booking_id = 3, category = ''Hotel'',
     location = \<lparr>city = ''Bangkok'', country = ''TH''\<rparr>,
     price = 80, nights = Some 3, passengers = None\<rparr>"

definition booking4 :: Booking where
  "booking4 = \<lparr>booking_id = 4, category = ''Hotel'',
     location = \<lparr>city = ''Dubai'', country = ''AE''\<rparr>,
     price = 200, nights = Some 1, passengers = None\<rparr>"

definition booking5 :: Booking where
  "booking5 = \<lparr>booking_id = 5, category = ''Flight'',
     location = \<lparr>city = ''Bangkok'', country = ''TH''\<rparr>,
     price = 300, nights = None, passengers = Some 2\<rparr>"

definition bookings :: "Booking list" where
  "bookings = [booking1, booking2, booking3, booking4, booking5]"

definition answer_options :: Options where
  "answer_options =
     \<lparr>groupBy = GArray [''category'', ''location.city''],
      aggregations = [''price'' \<mapsto> ''sum'', ''nights'' \<mapsto> ''avg''],
      sortBy = \<lparr>field = Price, order = desc\<rparr>\<rparr>"

text \<open>The options of \<^verbatim>\<open>answer\<close>, grouping by other field paths.\<close>

definition price_options :: Options where
  "price_options = answer_options\<lparr>groupBy := GString ''price''\<rparr>"

definition nights_options :: Options where
  "nights_options = answer_options\<lparr>groupBy := GString ''nights''\<rparr>"

text \<open>Two bookings with the prices 0 and 10.\<close>

definition zero_price :: Booking where
  "zero_price = booking1\<lparr>booking_id := 6, price := 0\<rparr>"

definition ten_price :: Booking where
  "ten_price = booking1\<lparr>booking_id := 7, price := 10\<rparr>"

text \<open>The options of the first call of the tests (those of the second are
  \<open>answer_options\<close>), and options with the kinds \<^verbatim>\<open>min\<close> and \<^verbatim>\<open>max\<close>.\<close>

definition nights_desc_options :: Options where
  "nights_desc_options =
     \<lparr>groupBy = GArray [''category''],
      aggregations = [''price'' \<mapsto> ''sum'', ''passengers'' \<mapsto> ''count''],
      sortBy = \<lparr>field = Nights, order = desc\<rparr>\<rparr>"

definition min_max_options :: Options where
  "min_max_options =
     \<lparr>groupBy = GString ''category'',
      aggregations = [''nights'' \<mapsto> ''min'', ''passengers'' \<mapsto> ''max''],
      sortBy = \<lparr>field = Price, order = asc\<rparr>\<rparr>"

definition count_of :: "'i Result \<Rightarrow> nat option" where
  "count_of e = (case e ''count'' of Some (Count n) \<Rightarrow> Some n | _ \<Rightarrow> None)"

text \<open>The summary of an entry that the fixtures of the tests are compared with: the group
  key under each of the two field paths, the three aggregates, the ids of the items and
  the count.\<close>

definition summary ::
  "(Booking list) Result \<Rightarrow>
     string option \<times> string option \<times> jsnum option \<times> jsnum option \<times> jsnum option \<times> int list \<times> nat option" where
  "summary e =
     (key_of ''category'' e, key_of ''location.city'' e,
      aggregates_of e ''price'', aggregates_of e ''nights'', aggregates_of e ''passengers'',
      map booking_id (items_of e), count_of e)"

subsection \<open>The arrays in a store\<close>

text \<open>
  A second model of the same functions, in which arrays are mutable and live in a store
  (a list of arrays; an address is an index, and an array is created by appending to
  the store). The input is the array at an address. \<^verbatim>\<open>groupBy\<close> creates an array for
  each new key and pushes onto the array of a key it already has;
  \<^verbatim>\<open>items.sort\<close> sorts the array of a bucket in place and returns that array, which the
  entry then holds in \<^verbatim>\<open>items\<close>. Bookings are never written by the source and stay
  values.
\<close>

type_synonym addr = nat
type_synonym heap = "Booking list list"

fun assign_value_h ::
  "heap \<Rightarrow> (string \<times> addr) list \<Rightarrow> string \<Rightarrow> Booking \<Rightarrow> heap \<times> (string \<times> addr) list" where
  "assign_value_h h [] k v = (h @ [[v]], [(k, length h)])"
| "assign_value_h h ((k', a) # rest) k v =
     (if k' = k then (h[a := h ! a @ [v]], (k', a) # rest)
      else (case assign_value_h h rest k v of (h', rest') \<Rightarrow> (h', (k', a) # rest')))"

text \<open>One step of the scan of \<^verbatim>\<open>groupBy\<close>: the element at index \<open>i\<close> is read from the
  collection and assigned to its bucket.\<close>

definition group_step ::
  "addr \<Rightarrow> (Booking \<Rightarrow> jsval) \<Rightarrow> heap \<times> (string \<times> addr) list \<Rightarrow> nat
     \<Rightarrow> heap \<times> (string \<times> addr) list" where
  "group_step collection iteratee st i =
     (let h = fst st; result = snd st; v = h ! collection ! i
      in assign_value_h h result (toString (iteratee v)) v)"

definition lGroupBy_h :: "heap \<Rightarrow> addr \<Rightarrow> (Booking \<Rightarrow> jsval) \<Rightarrow> heap \<times> (string \<times> addr) list" where
  "lGroupBy_h h collection iteratee =
     foldl (group_step collection iteratee) (h, []) [0..<length (h ! collection)]"

text \<open>The object literal of one group; \<^verbatim>\<open>items.sort\<close> overwrites the bucket's array.\<close>

definition make_result_h :: "Options \<Rightarrow> string \<Rightarrow> heap \<Rightarrow> string \<times> addr \<Rightarrow> heap \<times> addr Result" where
  "make_result_h options grp h entry =
     (let key = fst entry; items = snd entry;
          aggs = build_aggregates (aggregations options) (h ! items);
          h' = h[items := Array_sort (compare_items (sortBy options)) (h ! items)]
      in (h', Map.empty(grp \<mapsto> Key key,
                        ''aggregates'' \<mapsto> Aggs aggs,
                        ''items'' \<mapsto> Items items,
                        ''count'' \<mapsto> Count (length (h' ! items)))))"

text \<open>The body of the inner loop and the body of the outer loop.\<close>

definition push_result ::
  "Options \<Rightarrow> string \<Rightarrow> heap \<times> addr Result list \<Rightarrow> string \<times> addr
     \<Rightarrow> heap \<times> addr Result list" where
  "push_result options grp st entry =
     (let h = fst st; results = snd st; made = make_result_h options grp h entry
      in (fst made, results @ [snd made]))"

definition group_loop ::
  "addr \<Rightarrow> Options \<Rightarrow> heap \<times> addr Result list \<Rightarrow> string \<Rightarrow> heap \<times> addr Result list" where
  "group_loop arr options st grp =
     (let h = fst st; results = snd st;
          grouped = lGroupBy_h h arr (\<lambda>obj. get obj grp);
          h1 = fst grouped; groupedData = snd grouped
      in foldl (push_result options grp) (h1, results) (Object_entries groupedData))"

definition transformData_h :: "heap \<Rightarrow> addr \<Rightarrow> Options \<Rightarrow> heap \<times> addr Result list" where
  "transformData_h h arr options =
     foldl (group_loop arr options) (h, []) (allGroupBy (groupBy options))"

text \<open>Reading a result of the store model: the arrays its addresses point to.\<close>

definition deref :: "heap \<Rightarrow> addr Result \<Rightarrow> (Booking list) Result" where
  "deref h e = (\<lambda>name. map_option (map_resval (\<lambda>a. h ! a)) (e name))"

definition items_addr :: "addr Result \<Rightarrow> addr option" where
  "items_addr e = (case e ''items'' of Some (Items a) \<Rightarrow> Some a | _ \<Rightarrow> None)"

definition addrs_of :: "addr Result \<Rightarrow> addr set" where
  "addrs_of e = {a. \<exists>name. e name = Some (Items a)}"

definition deref_bucket :: "heap \<Rightarrow> string \<times> addr \<Rightarrow> string \<times> Booking list" where
  "deref_bucket h entry = (fst entry, h ! snd entry)"

text \<open>The bucket arrays of a grouping are distinct and were created at or after the
  store had \<open>L\<close> arrays.\<close>

definition buckets_ok :: "nat \<Rightarrow> heap \<Rightarrow> (string \<times> addr) list \<Rightarrow> bool" where
  "buckets_ok L h res = (distinct (map snd res) \<and> (\<forall>a \<in> snd ` set res. L \<le> a \<and> a < length h))"

section \<open>Properties\<close>

subsection \<open>The shape of the result\<close>

lemma foldl_push: "foldl (\<lambda>results x. results @ [f x]) acc xs = acc @ map f xs"
  by (induction xs arbitrary: acc) simp_all

lemma foldl_append_each: "foldl (\<lambda>results x. results @ F x) acc xs = acc @ concat (map F xs)"
  by (induction xs arbitrary: acc) simp_all

lemma transformData_concat:
  "transformData arr options =
     concat (map (group_entries arr options) (allGroupBy (groupBy options)))"
  by (simp add: transformData_def group_entries_def [abs_def] foldl_push foldl_append_each)

lemma in_transformData:
  "e \<in> set (transformData arr options) \<longleftrightarrow>
     (\<exists>grp \<in> set (allGroupBy (groupBy options)). e \<in> set (group_entries arr options grp))"
  by (auto simp: transformData_concat)

lemma make_result_items [simp]:
  "items_of (make_result options grp (k, bucket)) =
     Array_sort (compare_items (sortBy options)) bucket"
  by (simp add: make_result_def items_of_def Let_def)

lemma make_result_aggregates [simp]:
  "aggregates_of (make_result options grp (k, bucket)) =
     build_aggregates (aggregations options) bucket"
  by (simp add: make_result_def aggregates_of_def Let_def)

lemma make_result_count:
  "make_result options grp entry ''count'' =
     Some (Count (length (items_of (make_result options grp entry))))"
  by (cases entry) (simp add: make_result_def items_of_def Let_def)

lemma make_result_items_prop:
  "make_result options grp entry ''items'' =
     Some (Items (items_of (make_result options grp entry)))"
  by (cases entry) (simp add: make_result_def items_of_def Let_def)

subsection \<open>Sorting\<close>

lemma sort_insert_asc:
  "sort_insert (\<lambda>a b. k a - k b) x ys = insort_key k x ys"
  by (induction ys) simp_all

lemma sort_insert_desc:
  "sort_insert (\<lambda>a b. k b - k a) x ys = insort_key (\<lambda>a. - k a) x ys"
  by (induction ys) simp_all

lemma Array_sort_asc: "Array_sort (\<lambda>a b. k a - (k b :: int)) xs = sort_key k xs"
  by (simp add: Array_sort_def sort_key_def sort_insert_asc [abs_def])

lemma Array_sort_desc: "Array_sort (\<lambda>a b. k b - (k a :: int)) xs = sort_key (\<lambda>a. - k a) xs"
  by (simp add: Array_sort_def sort_key_def sort_insert_desc [abs_def])

lemma Array_sort_compare_items:
  "Array_sort (compare_items sb) xs =
     (if order sb = asc then sort_key (\<lambda>a. get_or_zero a (field sb)) xs
      else sort_key (\<lambda>a. - get_or_zero a (field sb)) xs)"
proof (cases "order sb = asc")
  case True
  then have "compare_items sb = (\<lambda>a b. get_or_zero a (field sb) - get_or_zero b (field sb))"
    by (simp add: compare_items_def fun_eq_iff)
  with True show ?thesis by (simp add: Array_sort_asc)
next
  case False
  then have "compare_items sb = (\<lambda>a b. get_or_zero b (field sb) - get_or_zero a (field sb))"
    by (simp add: compare_items_def fun_eq_iff)
  with False show ?thesis by (simp add: Array_sort_desc)
qed

lemma mset_Array_sort_compare_items [simp]: "mset (Array_sort (compare_items sb) xs) = mset xs"
  by (simp add: Array_sort_compare_items)

lemma set_Array_sort_compare_items [simp]: "set (Array_sort (compare_items sb) xs) = set xs"
  by (simp add: Array_sort_compare_items)

lemma length_Array_sort_compare_items [simp]: "length (Array_sort (compare_items sb) xs) = length xs"
  by (simp add: Array_sort_compare_items)

subsection \<open>Grouping\<close>

lemma first_seen_snoc:
  "first_seen (ks @ [k]) = (if k \<in> set ks then first_seen ks else first_seen ks @ [k])"
  by (simp add: first_seen_def)

lemma set_first_seen [simp]: "set (first_seen ks) = set ks"
  by (simp add: first_seen_def)

lemma distinct_first_seen [simp]: "distinct (first_seen ks)"
  by (simp add: first_seen_def)

lemma assign_value_present:
  "k \<in> set ks \<Longrightarrow> distinct ks \<Longrightarrow>
   assign_value (map (\<lambda>k'. (k', b k')) ks) k v =
     map (\<lambda>k'. (k', if k' = k then b k' @ [v] else b k')) ks"
  by (induction ks) auto

lemma assign_value_absent:
  "k \<notin> set ks \<Longrightarrow>
   assign_value (map (\<lambda>k'. (k', b k')) ks) k v = map (\<lambda>k'. (k', b k')) ks @ [(k, [v])]"
  by (induction ks) auto

lemma lGroupBy_snoc:
  "lGroupBy (xs @ [x]) f = assign_value (lGroupBy xs f) (toString (f x)) x"
  by (simp add: lGroupBy_def)

lemma buckets_snoc: "buckets key (xs @ [x]) = assign_value (buckets key xs) (key x) x"
proof (cases "key x \<in> set (first_seen (map key xs))")
  case True
  have "assign_value (buckets key xs) (key x) x
      = map (\<lambda>k. (k, if k = key x then filter (\<lambda>y. key y = k) xs @ [x]
                        else filter (\<lambda>y. key y = k) xs)) (first_seen (map key xs))"
    unfolding buckets_def using True by (rule assign_value_present) simp
  also have "\<dots> = map (\<lambda>k. (k, filter (\<lambda>y. key y = k) (xs @ [x]))) (first_seen (map key xs))"
    by auto
  also have "\<dots> = buckets key (xs @ [x])"
    using True by (simp add: buckets_def first_seen_snoc)
  finally show ?thesis by simp
next
  case False
  then have "key x \<notin> key ` set xs"
    by simp
  then have no: "\<And>y. y \<in> set xs \<Longrightarrow> key y \<noteq> key x"
    by (metis imageI)
  have "assign_value (buckets key xs) (key x) x
      = map (\<lambda>k. (k, filter (\<lambda>y. key y = k) xs)) (first_seen (map key xs)) @ [(key x, [x])]"
    unfolding buckets_def using False by (rule assign_value_absent)
  also have "map (\<lambda>k. (k, filter (\<lambda>y. key y = k) xs)) (first_seen (map key xs))
      = map (\<lambda>k. (k, filter (\<lambda>y. key y = k) (xs @ [x]))) (first_seen (map key xs))"
    using False by auto
  also have "[(key x, [x])] = [(key x, filter (\<lambda>y. key y = key x) (xs @ [x]))]"
    using no by (simp add: filter_empty_conv)
  finally show ?thesis
    using False by (simp add: buckets_def first_seen_snoc)
qed

lemma lGroupBy_buckets: "lGroupBy arr f = buckets (\<lambda>x. toString (f x)) arr"
proof (induction arr rule: rev_induct)
  case Nil
  show ?case by (simp add: lGroupBy_def buckets_def first_seen_def)
next
  case (snoc x xs)
  then show ?case by (simp add: lGroupBy_snoc buckets_snoc)
qed

subsection \<open>The order of the entries\<close>

lemma insort_key_map_pair:
  "insort_key (\<lambda>kv. f (fst kv)) (k, g k) (map (\<lambda>k. (k, g k)) ks)
     = map (\<lambda>k. (k, g k)) (insort_key f k ks)"
  by (induction ks) simp_all

lemma sort_key_map_pair:
  "sort_key (\<lambda>kv. f (fst kv)) (map (\<lambda>k. (k, g k)) ks) = map (\<lambda>k. (k, g k)) (sort_key f ks)"
  by (induction ks) (simp_all add: insort_key_map_pair)

lemma filter_map_pair:
  "filter (\<lambda>kv. P (fst kv)) (map (\<lambda>k. (k, g k)) ks) = map (\<lambda>k. (k, g k)) (filter P ks)"
  by (induction ks) simp_all

lemma Object_entries_map_pair:
  "Object_entries (map (\<lambda>k. (k, g k)) ks) = map (\<lambda>k. (k, g k)) (key_order ks)"
  by (simp add: Object_entries_def key_order_def sort_key_map_pair
      filter_map_pair [of is_array_index] filter_map_pair [of "\<lambda>k. \<not> is_array_index k"])

lemma set_key_order [simp]: "set (key_order ks) = set ks"
  by (auto simp: key_order_def)

lemma mset_key_order [simp]: "mset (key_order ks) = mset ks"
  by (simp add: key_order_def)

lemma distinct_key_order [simp]: "distinct (key_order ks) = distinct ks"
  by (metis mset_key_order mset_eq_imp_distinct_iff)

lemma length_key_order [simp]: "length (key_order ks) = length ks"
  by (metis mset_key_order size_mset)

lemma key_order_no_index:
  "\<forall>k \<in> set ks. \<not> is_array_index k \<Longrightarrow> key_order ks = ks"
  by (simp add: key_order_def filter_empty_conv)

lemma group_entries_eq:
  "group_entries arr options grp =
     map (\<lambda>k. make_result options grp (k, filter (\<lambda>r. group_key grp r = k) arr))
         (entry_keys arr grp)"
  by (simp add: group_entries_def lGroupBy_buckets buckets_def Object_entries_map_pair
      entry_keys_def group_key_def [abs_def] comp_def)

lemma distinct_entry_keys [simp]: "distinct (entry_keys arr grp)"
  by (simp add: entry_keys_def)

lemma set_entry_keys [simp]: "set (entry_keys arr grp) = group_key grp ` set arr"
  by (simp add: entry_keys_def)

lemma length_group_entries [simp]: "length (group_entries arr options grp) = length (entry_keys arr grp)"
  by (simp add: group_entries_eq)

lemma items_of_group_entry:
  "i < length (entry_keys arr grp) \<Longrightarrow>
   items_of (group_entries arr options grp ! i) =
     Array_sort (compare_items (sortBy options))
       (filter (\<lambda>r. group_key grp r = entry_keys arr grp ! i) arr)"
  by (simp add: group_entries_eq)

lemma in_group_entries:
  "e \<in> set (group_entries arr options grp) \<longleftrightarrow>
     (\<exists>k \<in> group_key grp ` set arr.
        e = make_result options grp (k, filter (\<lambda>r. group_key grp r = k) arr))"
  by (auto simp: group_entries_eq)

lemma bucket_from_items:
  assumes "e = make_result options grp (k, filter (\<lambda>r. group_key grp r = k) arr)"
  shows "filter (\<lambda>r. r \<in> set (items_of e)) arr = filter (\<lambda>r. group_key grp r = k) arr"
  using assms by (auto intro: filter_cong)

subsection \<open>The buckets partition the input\<close>

lemma sum_mset_filter_keys:
  "distinct ks \<Longrightarrow>
   sum_list (map (\<lambda>k. mset (filter (\<lambda>r. key r = k) xs)) ks)
     = mset (filter (\<lambda>r. key r \<in> set ks) xs)"
proof (induction ks)
  case Nil
  show ?case by simp
next
  case (Cons k ks)
  then have "k \<notin> set ks" by simp
  then have "mset (filter (\<lambda>r. key r = k) xs) + mset (filter (\<lambda>r. key r \<in> set ks) xs)
      = mset (filter (\<lambda>r. key r \<in> set (k # ks)) xs)"
    by (induction xs) auto
  with Cons show ?case by simp
qed

lemma group_entries_mset:
  "sum_list (map (\<lambda>e. mset (items_of e)) (group_entries arr options grp)) = mset arr"
proof -
  have "sum_list (map (\<lambda>e. mset (items_of e)) (group_entries arr options grp))
      = sum_list (map (\<lambda>k. mset (filter (\<lambda>r. group_key grp r = k) arr)) (entry_keys arr grp))"
    by (simp add: group_entries_eq comp_def)
  also have "\<dots> = mset (filter (\<lambda>r. group_key grp r \<in> set (entry_keys arr grp)) arr)"
    by (rule sum_mset_filter_keys) simp
  also have "\<dots> = mset arr"
    by simp
  finally show ?thesis .
qed

lemma group_entries_disjoint:
  assumes "i < j" "j < length (group_entries arr options grp)"
  shows "set (items_of (group_entries arr options grp ! i))
           \<inter> set (items_of (group_entries arr options grp ! j)) = {}"
proof -
  from assms have ij: "i < length (entry_keys arr grp)" "j < length (entry_keys arr grp)" "i \<noteq> j"
    by simp_all
  then have "entry_keys arr grp ! i \<noteq> entry_keys arr grp ! j"
    by (simp add: nth_eq_iff_index_eq)
  then show ?thesis
    using ij by (auto simp: items_of_group_entry)
qed

lemma key_of_make_result:
  "grp \<notin> {''aggregates'', ''items'', ''count''} \<Longrightarrow>
   key_of grp (make_result options grp (k, bucket)) = Some k"
  by (simp add: key_of_def make_result_def Let_def)

lemma entry_keys_unfold:
  "entry_keys arr grp =
     sort_key index_value (filter is_array_index (first_seen (map (group_key grp) arr)))
     @ filter (\<lambda>k. \<not> is_array_index k) (first_seen (map (group_key grp) arr))"
  by (simp add: entry_keys_def key_order_def)

lemma entry_keys_no_index:
  "\<forall>r \<in> set arr. \<not> is_array_index (group_key grp r) \<Longrightarrow>
   entry_keys arr grp = first_seen (map (group_key grp) arr)"
  unfolding entry_keys_def by (rule key_order_no_index) auto

lemma transformData_keys:
  "transformData arr options =
     concat (map (\<lambda>grp. map (\<lambda>k. make_result options grp
                                   (k, filter (\<lambda>r. group_key grp r = k) arr))
                             (entry_keys arr grp))
                 (allGroupBy (groupBy options)))"
  by (simp add: transformData_concat group_entries_eq [abs_def])

lemma group_key_undefined: "get r grp = Undefined \<Longrightarrow> group_key grp r = ''undefined''"
  by (simp add: group_key_def)

lemma lGroupBy_group_key:
  "lGroupBy arr (\<lambda>obj. get obj grp) =
     map (\<lambda>k. (k, filter (\<lambda>r. group_key grp r = k) arr)) (first_seen (map (group_key grp) arr))"
  by (simp add: lGroupBy_buckets buckets_def group_key_def [abs_def])

lemma filter_eq_distinct:
  "distinct ks \<Longrightarrow> c \<in> set ks \<Longrightarrow> filter ((=) c) ks = [c]"
  by (induction ks) (auto simp: filter_empty_conv)

lemma group_entries_containing:
  assumes "r \<in> set arr"
  shows "length (filter (\<lambda>e. r \<in> set (items_of e)) (group_entries arr options grp)) = 1"
proof -
  have "filter (\<lambda>e. r \<in> set (items_of e)) (group_entries arr options grp)
      = map (\<lambda>k. make_result options grp (k, filter (\<lambda>r. group_key grp r = k) arr))
          (filter ((=) (group_key grp r)) (entry_keys arr grp))"
    using assms by (auto simp: group_entries_eq filter_map comp_def intro!: filter_cong)
  moreover have "filter ((=) (group_key grp r)) (entry_keys arr grp) = [group_key grp r]"
    using assms by (intro filter_eq_distinct) simp_all
  ultimately show ?thesis by simp
qed

subsection \<open>Field access\<close>

lemma get_price [simp]: "get r ''price'' = Num (price r)"
  by (simp add: get_def Booking_prop_def)

lemma get_nights [simp]:
  "get r ''nights'' = (case nights r of None \<Rightarrow> Undefined | Some n \<Rightarrow> Num n)"
  by (simp add: get_def Booking_prop_def)

lemma get_passengers [simp]:
  "get r ''passengers'' = (case passengers r of None \<Rightarrow> Undefined | Some n \<Rightarrow> Num n)"
  by (simp add: get_def Booking_prop_def)

lemma get_number_simps:
  "get_number r Price = Some (price r)"
  "get_number r Nights = nights r"
  "get_number r Passengers = passengers r"
  by (simp_all add: get_number_def split: option.split)

lemma get_or_zero_simps:
  "get_or_zero r Price = price r"
  "get_or_zero r Nights = (case nights r of None \<Rightarrow> 0 | Some n \<Rightarrow> n)"
  "get_or_zero r Passengers = (case passengers r of None \<Rightarrow> 0 | Some n \<Rightarrow> n)"
  by (simp_all add: get_or_zero_def get_number_simps)

lemma get_or_zero_absent: "get_number r f = None \<Longrightarrow> get_or_zero r f = 0"
  by (simp add: get_or_zero_def)

lemma field_name_inj: "field_name f = field_name g \<longleftrightarrow> f = g"
  by (cases f; cases g) simp_all

lemma field_name_range: "range field_name = {''price'', ''nights'', ''passengers''}"
proof
  show "range field_name \<subseteq> {''price'', ''nights'', ''passengers''}"
  proof
    fix x assume "x \<in> range field_name"
    then obtain f where "x = field_name f" by blast
    then show "x \<in> {''price'', ''nights'', ''passengers''}" by (cases f) simp_all
  qed
  have "field_name Price \<in> range field_name" "field_name Nights \<in> range field_name"
    "field_name Passengers \<in> range field_name" by blast+
  then show "{''price'', ''nights'', ''passengers''} \<subseteq> range field_name"
    by simp
qed

subsection \<open>Aggregation\<close>

lemma foldl_add_sum_list: "foldl (+) a xs = a + sum_list (xs :: int list)"
  by (induction xs arbitrary: a) simp_all

lemma foldl_js_min_Fin: "foldl js_min (Fin r) xs = Fin (fold min (map of_int xs) r)"
  by (induction xs arbitrary: r) (simp_all add: min.commute)

lemma foldl_js_max_Fin: "foldl js_max (Fin r) xs = Fin (fold max (map of_int xs) r)"
  by (induction xs arbitrary: r) (simp_all add: max.commute)

lemma Math_min_eq:
  "Math_min vs = (if vs = [] then PInf else Fin (of_int (Min (set vs))))"
proof (cases vs)
  case Nil
  then show ?thesis by (simp add: Math_min_def)
next
  case (Cons v ws)
  have "Math_min (v # ws) = Fin (Min (set (map of_int (v # ws))))"
    using Min.set_eq_fold [of "of_int v :: rat" "map of_int ws"]
    by (simp add: Math_min_def foldl_js_min_Fin)
  also have "Min (set (map of_int (v # ws))) = (of_int (Min (set (v # ws))) :: rat)"
    by (simp add: mono_Min_commute [of of_int] monoI del: Min_insert)
  finally show ?thesis using Cons by simp
qed

lemma Math_max_eq:
  "Math_max vs = (if vs = [] then NInf else Fin (of_int (Max (set vs))))"
proof (cases vs)
  case Nil
  then show ?thesis by (simp add: Math_max_def)
next
  case (Cons v ws)
  have "Math_max (v # ws) = Fin (Max (set (map of_int (v # ws))))"
    using Max.set_eq_fold [of "of_int v :: rat" "map of_int ws"]
    by (simp add: Math_max_def foldl_js_max_Fin)
  also have "Max (set (map of_int (v # ws))) = (of_int (Max (set (v # ws))) :: rat)"
    by (simp add: mono_Max_commute [of of_int] monoI del: Max_insert)
  finally show ?thesis using Cons by simp
qed

lemma field_values_remove_zero:
  "get_or_zero r f = 0 \<Longrightarrow> field_values (xs @ r # ys) f = field_values (xs @ ys) f"
  by (simp add: field_values_def)

lemma getAggregatedValue_remove_zero:
  "get_or_zero r f = 0 \<Longrightarrow>
   getAggregatedValue (xs @ r # ys) f a = getAggregatedValue (xs @ ys) f a"
  by (simp add: getAggregatedValue_def Let_def field_values_remove_zero)

lemma getAggregatedValue_kinds:
  "getAggregatedValue items f ''sum'' = Fin (of_int (sum_list (field_values items f)))"
  "getAggregatedValue items f ''avg'' =
     js_div (of_int (sum_list (field_values items f))) (of_nat (length (field_values items f)))"
  "getAggregatedValue items f ''min'' =
     (if field_values items f = [] then PInf else Fin (of_int (Min (set (field_values items f)))))"
  "getAggregatedValue items f ''max'' =
     (if field_values items f = [] then NInf else Fin (of_int (Max (set (field_values items f)))))"
  "getAggregatedValue items f ''count'' = Fin (of_nat (length (field_values items f)))"
  by (simp_all add: getAggregatedValue_def Let_def foldl_add_sum_list Math_min_eq Math_max_eq)

lemma getAggregatedValue_empty_kind: "getAggregatedValue items f [] = Fin 0"
  by (simp add: getAggregatedValue_def Let_def)

lemma aggregate_of_eq:
  "aggregate_of aggs items f =
     (case aggs (field_name f) of None \<Rightarrow> Fin 0 | Some a \<Rightarrow> getAggregatedValue items f a)"
  by (simp add: aggregate_of_def getAggregatedValue_empty_kind split: option.split)

lemma build_aggregates_field:
  "build_aggregates aggs items (field_name f) =
     (if truthy (aggregate_of aggs items f) then Some (aggregate_of aggs items f) else None)"
  by (cases f) (simp_all add: build_aggregates_def set_if_truthy_def Let_def)

lemma build_aggregates_other:
  "name \<notin> {''price'', ''nights'', ''passengers''} \<Longrightarrow> build_aggregates aggs items name = None"
  by (auto simp add: build_aggregates_def set_if_truthy_def Let_def)

subsection \<open>The items of an entry\<close>

lemma sorted_map_uminus: "sorted (map (\<lambda>x. - k x) xs) = sorted (rev (map k xs :: int list))"
  by (simp add: sorted_map sorted_wrt_rev sorted_wrt_map flip: rev_map)

lemma sort_key_constant:
  assumes "\<forall>x \<in> set xs. k x = c"
  shows "sort_key k xs = xs"
proof -
  have "filter (\<lambda>y. k y = c) (sort_key k xs) = filter (\<lambda>y. k y = c) xs"
    by (rule sort_key_stable)
  moreover have "filter (\<lambda>y. k y = c) (sort_key k xs) = sort_key k xs"
    using assms by (simp add: filter_id_conv)
  moreover have "filter (\<lambda>y. k y = c) xs = xs"
    using assms by (simp add: filter_id_conv)
  ultimately show ?thesis by simp
qed

lemma sortOrder_not_asc: "o' \<noteq> asc \<longleftrightarrow> o' = desc"
  by (cases o') simp_all

lemma sorted_bucket:
  fixes sb bucket
  defines "k \<equiv> \<lambda>r. get_or_zero r (field sb)"
  defines "xs \<equiv> Array_sort (compare_items sb) bucket"
  shows "(order sb = asc \<longrightarrow> sorted (map k xs))"
    and "(order sb = desc \<longrightarrow> sorted (rev (map k xs)))"
    and "filter (\<lambda>r. k r = v) xs = filter (\<lambda>r. k r = v) bucket"
    and "(\<forall>r \<in> set bucket. get_number r (field sb) = None) \<longrightarrow> xs = bucket"
proof -
  show "order sb = asc \<longrightarrow> sorted (map k xs)"
    by (simp add: xs_def k_def Array_sort_compare_items)
  show "order sb = desc \<longrightarrow> sorted (rev (map k xs))"
  proof
    assume "order sb = desc"
    then have "xs = sort_key (\<lambda>a. - k a) bucket"
      by (simp add: xs_def k_def Array_sort_compare_items)
    then have "sorted (map (\<lambda>a. - k a) xs)" by simp
    then show "sorted (rev (map k xs))" by (simp add: sorted_map_uminus)
  qed
  show "filter (\<lambda>r. k r = v) xs = filter (\<lambda>r. k r = v) bucket"
  proof (cases "order sb = asc")
    case True
    then show ?thesis
      by (simp add: xs_def k_def Array_sort_compare_items sort_key_stable)
  next
    case False
    have "filter (\<lambda>r. - k r = - v) (sort_key (\<lambda>a. - k a) bucket) = filter (\<lambda>r. - k r = - v) bucket"
      by (rule sort_key_stable)
    with False show ?thesis
      by (simp add: xs_def k_def Array_sort_compare_items)
  qed
  show "(\<forall>r \<in> set bucket. get_number r (field sb) = None) \<longrightarrow> xs = bucket"
  proof
    assume "\<forall>r \<in> set bucket. get_number r (field sb) = None"
    then have z: "\<forall>r \<in> set bucket. k r = 0"
      by (simp add: k_def get_or_zero_absent)
    then have "sort_key k bucket = bucket" by (rule sort_key_constant)
    moreover from z have "sort_key (\<lambda>a. - k a) bucket = bucket"
      by (intro sort_key_constant [where c = 0]) simp
    ultimately show "xs = bucket"
      by (simp add: xs_def k_def Array_sort_compare_items)
  qed
qed

lemma aggregates_prop:
  "make_result options grp entry ''aggregates'' = Some (Aggs (aggregates_of (make_result options grp entry)))"
  by (cases entry) (simp add: make_result_def aggregates_of_def Let_def)

lemma entry_aggregate:
  assumes "e \<in> set (transformData arr options)"
  shows "aggregates_of e (field_name f) =
        (case aggregations options (field_name f) of
           None \<Rightarrow> None
         | Some a \<Rightarrow>
             if truthy (getAggregatedValue (filter (\<lambda>r. r \<in> set (items_of e)) arr) f a)
             then Some (getAggregatedValue (filter (\<lambda>r. r \<in> set (items_of e)) arr) f a)
             else None)"
    and "e ''aggregates'' = Some (Aggs (aggregates_of e))"
    and "name \<notin> {''price'', ''nights'', ''passengers''} \<longrightarrow> aggregates_of e name = None"
    and "set (filter (\<lambda>r. r \<in> set (items_of e)) arr) = set (items_of e)"
proof -
  from assms obtain grp k
    where e: "e = make_result options grp (k, filter (\<lambda>r. group_key grp r = k) arr)"
    unfolding in_transformData in_group_entries by blast
  let ?bucket = "filter (\<lambda>r. group_key grp r = k) arr"
  have b: "filter (\<lambda>r. r \<in> set (items_of e)) arr = ?bucket"
    using e by (rule bucket_from_items)
  have a: "aggregates_of e = build_aggregates (aggregations options) ?bucket"
    using e by simp
  show "e ''aggregates'' = Some (Aggs (aggregates_of e))"
    unfolding e by (rule aggregates_prop)
  show "aggregates_of e (field_name f) =
        (case aggregations options (field_name f) of
           None \<Rightarrow> None
         | Some a \<Rightarrow>
             if truthy (getAggregatedValue (filter (\<lambda>r. r \<in> set (items_of e)) arr) f a)
             then Some (getAggregatedValue (filter (\<lambda>r. r \<in> set (items_of e)) arr) f a)
             else None)"
    unfolding b a by (simp add: build_aggregates_field aggregate_of_eq split: option.split)
  show "name \<notin> {''price'', ''nights'', ''passengers''} \<longrightarrow> aggregates_of e name = None"
    unfolding a using build_aggregates_other by blast
  show "set (filter (\<lambda>r. r \<in> set (items_of e)) arr) = set (items_of e)"
    unfolding b using e by simp
qed

lemma field_values_all_zero:
  "\<forall>r \<in> set items. get_number r f = None \<or> get_number r f = Some 0 \<Longrightarrow>
   field_values items f = []"
  by (auto simp: field_values_def filter_empty_conv get_or_zero_def)

subsection \<open>The store model\<close>

lemma buckets_ok_Nil [simp]: "buckets_ok L h []"
  by (simp add: buckets_ok_def)

lemma buckets_ok_Cons:
  "buckets_ok L h ((k, a) # rest) \<longleftrightarrow>
     a \<notin> snd ` set rest \<and> L \<le> a \<and> a < length h \<and> buckets_ok L h rest"
  by (auto simp: buckets_ok_def)

lemma map_deref_bucket_cong:
  "\<forall>a \<in> snd ` set res. h' ! a = h ! a \<Longrightarrow> map (deref_bucket h') res = map (deref_bucket h) res"
  by (induction res) (auto simp: deref_bucket_def)

lemma assign_value_h_correct:
  assumes "buckets_ok L h res" and "L \<le> length h"
    and "assign_value_h h res k v = (h', res')"
  shows "buckets_ok L h' res' \<and> length h \<le> length h' \<and>
     (\<forall>b < length h. b \<notin> snd ` set res \<longrightarrow> h' ! b = h ! b) \<and>
     snd ` set res \<subseteq> snd ` set res' \<and>
     (\<forall>a \<in> snd ` set res'. a \<in> snd ` set res \<or> length h \<le> a) \<and>
     map (deref_bucket h') res' = assign_value (map (deref_bucket h) res) k v"
  using assms
proof (induction res arbitrary: h' res')
  case Nil
  then show ?case
    by (auto simp: buckets_ok_def deref_bucket_def nth_append)
next
  case (Cons e rest)
  obtain k' a where e: "e = (k', a)" by (cases e)
  from Cons.prems(1) have ok: "a \<notin> snd ` set rest" "L \<le> a" "a < length h" "buckets_ok L h rest"
    unfolding e buckets_ok_Cons by simp_all
  show ?case
  proof (cases "k' = k")
    case True
    with Cons.prems(3) have h': "h' = h[a := h ! a @ [v]]" and res': "res' = (k', a) # rest"
      by (simp_all add: e)
    have "\<forall>b \<in> snd ` set rest. h' ! b = h ! b"
    proof
      fix b assume "b \<in> snd ` set rest"
      with ok(1) have "b \<noteq> a" by blast
      then show "h' ! b = h ! b" by (simp add: h')
    qed
    then have "map (deref_bucket h') rest = map (deref_bucket h) rest"
      by (rule map_deref_bucket_cong)
    then have "map (deref_bucket h') res' = assign_value (map (deref_bucket h) (e # rest)) k v"
      using True ok by (simp add: e res' h' deref_bucket_def)
    moreover have "buckets_ok L h' res'"
      using Cons.prems(1) by (simp add: res' e h' buckets_ok_def)
    ultimately show ?thesis
      by (auto simp: h' res' e)
  next
    case False
    obtain h1 rest1 where r: "assign_value_h h rest k v = (h1, rest1)"
      by (cases "assign_value_h h rest k v")
    with False Cons.prems(3) have h': "h' = h1" and res': "res' = (k', a) # rest1"
      by (simp_all add: e)
    from Cons.IH [OF ok(4) Cons.prems(2) r]
    have ih: "buckets_ok L h1 rest1" "length h \<le> length h1"
      "\<forall>b < length h. b \<notin> snd ` set rest \<longrightarrow> h1 ! b = h ! b"
      "snd ` set rest \<subseteq> snd ` set rest1"
      "\<forall>a \<in> snd ` set rest1. a \<in> snd ` set rest \<or> length h \<le> a"
      "map (deref_bucket h1) rest1 = assign_value (map (deref_bucket h) rest) k v"
      by simp_all
    have a1: "h1 ! a = h ! a"
      using ih(3) ok by simp
    have a2: "a \<notin> snd ` set rest1"
      using ih(5) ok by auto
    have "buckets_ok L h' res'"
      unfolding res' h' buckets_ok_Cons using a2 ok ih(1,2) by simp
    moreover have "map (deref_bucket h') res' = assign_value (map (deref_bucket h) (e # rest)) k v"
      using False ih(6) a1 by (simp add: e res' h' deref_bucket_def)
    moreover have "\<forall>b < length h. b \<notin> snd ` set (e # rest) \<longrightarrow> h' ! b = h ! b"
      using ih(3) by (simp add: h' e)
    moreover have "snd ` set (e # rest) \<subseteq> snd ` set res'"
      using ih(4) by (auto simp: res' e)
    moreover have "\<forall>a \<in> snd ` set res'. a \<in> snd ` set (e # rest) \<or> length h \<le> a"
      using ih(5) by (auto simp: res' e)
    ultimately show ?thesis
      using ih(2) by (simp add: h')
  qed
qed

lemma group_step_pair:
  "group_step arr f (h, res) i = assign_value_h h res (toString (f (h ! arr ! i))) (h ! arr ! i)"
  by (simp add: group_step_def Let_def)

lemma lGroupBy_h_prefix:
  assumes "arr < length h" and "n \<le> length (h ! arr)"
    and "foldl (group_step arr f) (h, []) [0..<n] = (hn, resn)"
  shows "buckets_ok (length h) hn resn \<and> length h \<le> length hn \<and>
     (\<forall>b < length h. hn ! b = h ! b) \<and>
     map (deref_bucket hn) resn = lGroupBy (take n (h ! arr)) f"
  using assms(2,3)
proof (induction n arbitrary: hn resn)
  case 0
  then show ?case by (simp add: lGroupBy_def)
next
  case (Suc n)
  obtain h1 res1 where p: "foldl (group_step arr f) (h, []) [0..<n] = (h1, res1)"
    by (cases "foldl (group_step arr f) (h, []) [0..<n]")
  from Suc.prems(1) have n: "n \<le> length (h ! arr)" "n < length (h ! arr)" by simp_all
  from Suc.IH [OF n(1) p]
  have ih: "buckets_ok (length h) h1 res1" "length h \<le> length h1"
    "\<forall>b < length h. h1 ! b = h ! b"
    "map (deref_bucket h1) res1 = lGroupBy (take n (h ! arr)) f"
    by simp_all
  have v: "h1 ! arr ! n = h ! arr ! n"
    using ih(3) assms(1) by simp
  let ?v = "h ! arr ! n"
  from Suc.prems(2) p have a: "assign_value_h h1 res1 (toString (f ?v)) ?v = (hn, resn)"
    by (simp add: v group_step_pair)
  from assign_value_h_correct [OF ih(1) ih(2) a]
  have c: "buckets_ok (length h) hn resn" "length h1 \<le> length hn"
    "\<forall>b < length h1. b \<notin> snd ` set res1 \<longrightarrow> hn ! b = h1 ! b"
    "map (deref_bucket hn) resn = assign_value (map (deref_bucket h1) res1) (toString (f ?v)) ?v"
    by simp_all
  have "\<forall>b < length h. hn ! b = h ! b"
  proof (intro allI impI)
    fix b assume b: "b < length h"
    then have "b \<notin> snd ` set res1"
      using ih(1) by (auto simp: buckets_ok_def)
    then have "hn ! b = h1 ! b"
      using c(3) b ih(2) by simp
    then show "hn ! b = h ! b"
      using ih(3) b by simp
  qed
  moreover have "map (deref_bucket hn) resn = lGroupBy (take (Suc n) (h ! arr)) f"
    using c(4) ih(4) n(2) by (simp add: take_Suc_conv_app_nth lGroupBy_snoc)
  ultimately show ?case
    using c(1,2) ih(2) by simp
qed

lemma lGroupBy_h_correct:
  assumes "arr < length h" and "lGroupBy_h h arr f = (h', res)"
  shows "buckets_ok (length h) h' res \<and> length h \<le> length h' \<and>
     (\<forall>b < length h. h' ! b = h ! b) \<and>
     map (deref_bucket h') res = lGroupBy (h ! arr) f"
  using lGroupBy_h_prefix [OF assms(1) order_refl, of f h' res] assms(2)
  by (simp add: lGroupBy_h_def)

lemma make_result_h_heap:
  "fst (make_result_h options grp h (k, a))
     = h[a := Array_sort (compare_items (sortBy options)) (h ! a)]"
  by (simp add: make_result_h_def Let_def)

lemma make_result_h_items_addr:
  "items_addr (snd (make_result_h options grp h (k, a))) = Some a"
  by (simp add: make_result_h_def Let_def items_addr_def)

lemma make_result_h_deref:
  assumes "a < length h"
    and "h'' ! a = Array_sort (compare_items (sortBy options)) (h ! a)"
  shows "deref h'' (snd (make_result_h options grp h (k, a))) = make_result options grp (k, h ! a)"
proof
  fix name
  show "deref h'' (snd (make_result_h options grp h (k, a))) name
      = make_result options grp (k, h ! a) name"
    using assms by (simp add: deref_def make_result_h_def make_result_def Let_def)
qed

lemma push_result_pair:
  "push_result options grp (h, results) (k, a) =
     (h[a := Array_sort (compare_items (sortBy options)) (h ! a)],
      results @ [snd (make_result_h options grp h (k, a))])"
  by (simp add: push_result_def Let_def make_result_h_heap)

lemma results_loop_correct:
  assumes "buckets_ok L h es"
    and "foldl (push_result options grp) (h, results) es = (h', results')"
  shows "length h' = length h \<and>
     (\<forall>b < length h. b \<notin> snd ` set es \<longrightarrow> h' ! b = h ! b) \<and>
     (\<exists>rs. results' = results @ rs \<and>
        map (deref h') rs = map (make_result options grp) (map (deref_bucket h) es) \<and>
        map items_addr rs = map (\<lambda>e. Some (snd e)) es)"
  using assms
proof (induction es arbitrary: h results)
  case Nil
  then show ?case by simp
next
  case (Cons e es)
  obtain k a where e: "e = (k, a)" by (cases e)
  from Cons.prems(1) have ok: "a \<notin> snd ` set es" "L \<le> a" "a < length h" "buckets_ok L h es"
    unfolding e buckets_ok_Cons by simp_all
  let ?h1 = "h[a := Array_sort (compare_items (sortBy options)) (h ! a)]"
  let ?r = "snd (make_result_h options grp h (k, a))"
  have ok1: "buckets_ok L ?h1 es"
    using ok(4) by (simp add: buckets_ok_def)
  from Cons.prems(2) have f: "foldl (push_result options grp) (?h1, results @ [?r]) es = (h', results')"
    by (simp add: e push_result_pair)
  note IH = Cons.IH [OF ok1 f]
  have ih: "length h' = length ?h1"
      "\<forall>b < length ?h1. b \<notin> snd ` set es \<longrightarrow> h' ! b = ?h1 ! b"
    using IH by (rule conjunct1, rule conjunct2 [THEN conjunct1])
  from IH [THEN conjunct2, THEN conjunct2] obtain rs where
    rs: "results' = (results @ [?r]) @ rs"
      "map (deref h') rs = map (make_result options grp) (map (deref_bucket ?h1) es)"
      "map items_addr rs = map (\<lambda>e. Some (snd e)) es"
    by (elim exE conjE)
  have a': "h' ! a = Array_sort (compare_items (sortBy options)) (h ! a)"
    using ih(2) ok by simp
  have d: "deref h' ?r = make_result options grp (k, h ! a)"
    using ok(3) a' by (rule make_result_h_deref)
  have "\<forall>b \<in> snd ` set es. ?h1 ! b = h ! b"
  proof
    fix b assume "b \<in> snd ` set es"
    with ok(1) have "b \<noteq> a" by blast
    then show "?h1 ! b = h ! b" by simp
  qed
  then have db: "map (deref_bucket ?h1) es = map (deref_bucket h) es"
    by (rule map_deref_bucket_cong)
  have 1: "results' = results @ (?r # rs)"
    using rs(1) by simp
  have 2: "map (deref h') (?r # rs) = map (make_result options grp) (map (deref_bucket h) (e # es))"
    using d rs(2) db by (simp add: e deref_bucket_def)
  have 3: "map items_addr (?r # rs) = map (\<lambda>e. Some (snd e)) (e # es)"
    using rs(3) by (simp add: e make_result_h_items_addr)
  have 4: "\<forall>b < length h. b \<notin> snd ` set (e # es) \<longrightarrow> h' ! b = h ! b"
    using ih(2) by (simp add: e)
  have 5: "length h' = length h"
    using ih(1) by simp
  from 1 2 3 have "\<exists>rs. results' = results @ rs \<and>
        map (deref h') rs = map (make_result options grp) (map (deref_bucket h) (e # es)) \<and>
        map items_addr rs = map (\<lambda>e. Some (snd e)) (e # es)"
    by (intro exI [of _ "?r # rs"] conjI)
  with 4 5 show ?case
    by (intro conjI)
qed

lemma addrs_of_make_result_h: "addrs_of (snd (make_result_h options grp h (k, a))) = {a}"
proof -
  have "\<And>name b. snd (make_result_h options grp h (k, a)) name = Some (Items b) \<Longrightarrow> b = a"
    by (simp add: make_result_h_def Let_def split: if_splits)
  moreover have "snd (make_result_h options grp h (k, a)) ''items'' = Some (Items a)"
    by (simp add: make_result_h_def Let_def)
  ultimately show ?thesis
    unfolding addrs_of_def by blast
qed

lemma deref_cong:
  assumes "\<forall>a \<in> addrs_of e. h' ! a = h ! a"
  shows "deref h' e = deref h e"
proof
  fix name
  show "deref h' e name = deref h e name"
  proof (cases "e name")
    case None
    then show ?thesis by (simp add: deref_def)
  next
    case (Some v)
    show ?thesis
    proof (cases v)
      case (Items a)
      with Some have "a \<in> addrs_of e" unfolding addrs_of_def by blast
      with assms have "h' ! a = h ! a" by blast
      with Some Items show ?thesis by (simp add: deref_def)
    qed (simp_all add: deref_def Some)
  qed
qed

lemma results_loop_addrs:
  assumes "foldl (push_result options grp) (h, results) es = (h', results')"
    and "\<forall>r \<in> set results. addrs_of r \<subseteq> A" and "snd ` set es \<subseteq> A"
  shows "\<forall>r \<in> set results'. addrs_of r \<subseteq> A"
  using assms
proof (induction es arbitrary: h results)
  case Nil
  then show ?case by simp
next
  case (Cons e es)
  obtain k a where e: "e = (k, a)" by (cases e)
  let ?h1 = "h[a := Array_sort (compare_items (sortBy options)) (h ! a)]"
  let ?r = "snd (make_result_h options grp h (k, a))"
  from Cons.prems(1) have f: "foldl (push_result options grp) (?h1, results @ [?r]) es = (h', results')"
    by (simp add: e push_result_pair)
  have "a \<in> A"
    using Cons.prems(3) by (simp add: e)
  then have 1: "\<forall>r \<in> set (results @ [?r]). addrs_of r \<subseteq> A"
    using Cons.prems(2) by (simp add: addrs_of_make_result_h)
  have 2: "snd ` set es \<subseteq> A"
    using Cons.prems(3) by simp
  show ?case
    using f 1 2 by (rule Cons.IH)
qed

lemma mset_Object_entries [simp]: "mset (Object_entries obj) = mset obj"
  by (simp add: Object_entries_def)

lemma set_Object_entries [simp]: "set (Object_entries obj) = set obj"
  using mset_Object_entries [of obj] by (rule mset_eq_setD)

lemma insort_key_map_snd:
  "insort_key (\<lambda>kv. f (fst kv)) (fst e, g (snd e)) (map (\<lambda>e. (fst e, g (snd e))) es)
     = map (\<lambda>e. (fst e, g (snd e))) (insort_key (\<lambda>kv. f (fst kv)) e es)"
  by (induction es) simp_all

lemma sort_key_map_snd:
  "sort_key (\<lambda>kv. f (fst kv)) (map (\<lambda>e. (fst e, g (snd e))) es)
     = map (\<lambda>e. (fst e, g (snd e))) (sort_key (\<lambda>kv. f (fst kv)) es)"
  by (induction es) (simp_all add: insort_key_map_snd)

lemma filter_map_snd:
  "filter (\<lambda>kv. P (fst kv)) (map (\<lambda>e. (fst e, g (snd e))) es)
     = map (\<lambda>e. (fst e, g (snd e))) (filter (\<lambda>kv. P (fst kv)) es)"
  by (induction es) simp_all

lemma Object_entries_map_snd:
  "Object_entries (map (\<lambda>e. (fst e, g (snd e))) es) = map (\<lambda>e. (fst e, g (snd e))) (Object_entries es)"
  unfolding Object_entries_def map_append
  using sort_key_map_snd [of index_value g "filter (\<lambda>kv. is_array_index (fst kv)) es"]
    filter_map_snd [of is_array_index g es] filter_map_snd [of "\<lambda>k. \<not> is_array_index k" g es]
  by simp

lemma Object_entries_deref:
  "Object_entries (map (deref_bucket h) es) = map (deref_bucket h) (Object_entries es)"
  using Object_entries_map_snd [of "\<lambda>a. h ! a" es] by (simp add: deref_bucket_def [abs_def])

lemma buckets_ok_Object_entries: "buckets_ok L h (Object_entries es) = buckets_ok L h es"
proof -
  have "mset (map snd (Object_entries es)) = mset (map snd es)"
    by simp
  then have "distinct (map snd (Object_entries es)) = distinct (map snd es)"
    by (rule mset_eq_imp_distinct_iff)
  then show ?thesis by (simp add: buckets_ok_def)
qed

lemma group_loop_correct:
  assumes "arr < length h"
    and "group_loop arr options (h, results) grp = (h', results')"
  shows "length h \<le> length h' \<and> (\<forall>b < length h. h' ! b = h ! b) \<and>
     (\<exists>rs. results' = results @ rs \<and>
        map (deref h') rs = group_entries (h ! arr) options grp \<and>
        distinct (map items_addr rs) \<and>
        (\<forall>r \<in> set rs. \<exists>a. items_addr r = Some a \<and> length h \<le> a \<and> a < length h') \<and>
        ((\<forall>r \<in> set results. addrs_of r \<subseteq> {..<length h}) \<longrightarrow>
           (\<forall>r \<in> set results'. addrs_of r \<subseteq> {..<length h'})))"
proof -
  obtain h1 gd where g: "lGroupBy_h h arr (\<lambda>obj. get obj grp) = (h1, gd)"
    by (cases "lGroupBy_h h arr (\<lambda>obj. get obj grp)")
  let ?es = "Object_entries gd"
  from assms(2) g have f: "foldl (push_result options grp) (h1, results) ?es = (h', results')"
    by (simp add: group_loop_def Let_def)
  from lGroupBy_h_correct [OF assms(1) g]
  have gc: "buckets_ok (length h) h1 gd" "length h \<le> length h1"
    "\<forall>b < length h. h1 ! b = h ! b"
    "map (deref_bucket h1) gd = lGroupBy (h ! arr) (\<lambda>obj. get obj grp)"
    by simp_all
  have ok: "buckets_ok (length h) h1 ?es"
    using gc(1) by (simp add: buckets_ok_Object_entries)
  note rl = results_loop_correct [OF ok f]
  have len: "length h' = length h1"
    using rl by (rule conjunct1)
  have fr: "\<forall>b < length h1. b \<notin> snd ` set ?es \<longrightarrow> h' ! b = h1 ! b"
    using rl by (rule conjunct2 [THEN conjunct1])
  from rl [THEN conjunct2, THEN conjunct2] obtain rs where
    rs: "results' = results @ rs"
      "map (deref h') rs = map (make_result options grp) (map (deref_bucket h1) ?es)"
      "map items_addr rs = map (\<lambda>e. Some (snd e)) ?es"
    by (elim exE conjE)
  have in_range: "\<forall>a \<in> snd ` set ?es. length h \<le> a \<and> a < length h1"
    using ok by (simp add: buckets_ok_def)
  have 1: "\<forall>b < length h. h' ! b = h ! b"
  proof (intro allI impI)
    fix b assume b: "b < length h"
    with in_range have "b \<notin> snd ` set ?es" by fastforce
    with fr b gc(2) have "h' ! b = h1 ! b" by simp
    with gc(3) b show "h' ! b = h ! b" by simp
  qed
  have 2: "map (deref h') rs = group_entries (h ! arr) options grp"
    using rs(2) gc(4) by (simp add: group_entries_def Object_entries_deref [symmetric])
  have "distinct (map snd ?es)"
    using ok by (simp add: buckets_ok_def)
  then have "distinct (map Some (map snd ?es))"
    by (subst distinct_map) simp
  then have 3: "distinct (map items_addr rs)"
    unfolding rs(3) by (simp add: comp_def)
  have 4: "\<forall>r \<in> set rs. \<exists>a. items_addr r = Some a \<and> length h \<le> a \<and> a < length h'"
  proof
    fix r assume "r \<in> set rs"
    then have "items_addr r \<in> set (map items_addr rs)" by simp
    then obtain e where "e \<in> set ?es" "items_addr r = Some (snd e)"
      unfolding rs(3) by auto
    with in_range len show "\<exists>a. items_addr r = Some a \<and> length h \<le> a \<and> a < length h'"
      by auto
  qed
  have 5: "\<forall>r \<in> set results'. addrs_of r \<subseteq> {..<length h'}"
    if "\<forall>r \<in> set results. addrs_of r \<subseteq> {..<length h}"
  proof (rule results_loop_addrs [OF f])
    show "\<forall>r \<in> set results. addrs_of r \<subseteq> {..<length h'}"
      using that gc(2) len by fastforce
    show "snd ` set ?es \<subseteq> {..<length h'}"
      using in_range len by auto
  qed
  have "length h \<le> length h'"
    using gc(2) len by simp
  moreover have "\<exists>rs. results' = results @ rs \<and>
        map (deref h') rs = group_entries (h ! arr) options grp \<and>
        distinct (map items_addr rs) \<and>
        (\<forall>r \<in> set rs. \<exists>a. items_addr r = Some a \<and> length h \<le> a \<and> a < length h') \<and>
        ((\<forall>r \<in> set results. addrs_of r \<subseteq> {..<length h}) \<longrightarrow>
           (\<forall>r \<in> set results'. addrs_of r \<subseteq> {..<length h'}))"
    using rs(1) 2 3 4 5 by (intro exI [of _ rs] conjI impI)
  ultimately show ?thesis
    using 1 by (intro conjI)
qed

lemma groups_loop_correct:
  assumes "arr < length h" and "\<forall>r \<in> set results. addrs_of r \<subseteq> {..<length h}"
    and "foldl (group_loop arr options) (h, results) gs = (h', results')"
  shows "length h \<le> length h' \<and> (\<forall>b < length h. h' ! b = h ! b) \<and>
     (\<forall>r \<in> set results'. addrs_of r \<subseteq> {..<length h'}) \<and>
     (\<exists>rs. results' = results @ rs \<and>
        map (deref h') rs = concat (map (group_entries (h ! arr) options) gs) \<and>
        distinct (map items_addr rs) \<and>
        (\<forall>r \<in> set rs. \<exists>a. items_addr r = Some a \<and> length h \<le> a \<and> a < length h'))"
  using assms
proof (induction gs arbitrary: h results)
  case Nil
  then show ?case by simp
next
  case (Cons g gs)
  obtain h1 results1 where s: "group_loop arr options (h, results) g = (h1, results1)"
    by (cases "group_loop arr options (h, results) g")
  note gl = group_loop_correct [OF Cons.prems(1) s]
  have l1: "length h \<le> length h1" and f1: "\<forall>b < length h. h1 ! b = h ! b"
    using gl by (rule conjunct1, rule conjunct2 [THEN conjunct1])
  from gl [THEN conjunct2, THEN conjunct2] obtain rs1 where
    rs1: "results1 = results @ rs1"
      "map (deref h1) rs1 = group_entries (h ! arr) options g"
      "distinct (map items_addr rs1)"
      "\<forall>r \<in> set rs1. \<exists>a. items_addr r = Some a \<and> length h \<le> a \<and> a < length h1"
      "(\<forall>r \<in> set results. addrs_of r \<subseteq> {..<length h}) \<longrightarrow>
           (\<forall>r \<in> set results1. addrs_of r \<subseteq> {..<length h1})"
    by (elim exE conjE)
  have ad1: "\<forall>r \<in> set results1. addrs_of r \<subseteq> {..<length h1}"
    using rs1(5) Cons.prems(2) by (rule mp)
  have arr1: "arr < length h1"
    using Cons.prems(1) l1 by simp
  have in1: "h1 ! arr = h ! arr"
    using f1 Cons.prems(1) by simp
  from Cons.prems(3) have f: "foldl (group_loop arr options) (h1, results1) gs = (h', results')"
    by (simp add: s)
  note IH = Cons.IH [OF arr1 ad1 f]
  have l2: "length h1 \<le> length h'" and f2: "\<forall>b < length h1. h' ! b = h1 ! b"
    and ad2: "\<forall>r \<in> set results'. addrs_of r \<subseteq> {..<length h'}"
    using IH by (rule conjunct1, rule conjunct2 [THEN conjunct1],
        rule conjunct2 [THEN conjunct2, THEN conjunct1])
  from IH [THEN conjunct2, THEN conjunct2, THEN conjunct2] obtain rs2 where
    rs2: "results' = results1 @ rs2"
      "map (deref h') rs2 = concat (map (group_entries (h1 ! arr) options) gs)"
      "distinct (map items_addr rs2)"
      "\<forall>r \<in> set rs2. \<exists>a. items_addr r = Some a \<and> length h1 \<le> a \<and> a < length h'"
    by (elim exE conjE)
  have "map (deref h') rs1 = map (deref h1) rs1"
  proof (rule map_cong [OF refl])
    fix r assume "r \<in> set rs1"
    then have "r \<in> set results1" by (simp add: rs1(1))
    with ad1 have "addrs_of r \<subseteq> {..<length h1}" by blast
    with f2 have "\<forall>a \<in> addrs_of r. h' ! a = h1 ! a" by blast
    then show "deref h' r = deref h1 r" by (rule deref_cong)
  qed
  then have 1: "map (deref h') (rs1 @ rs2) = concat (map (group_entries (h ! arr) options) (g # gs))"
    using rs1(2) rs2(2) in1 by simp
  have "set (map items_addr rs1) \<inter> set (map items_addr rs2) = {}"
  proof (rule ccontr)
    assume "set (map items_addr rs1) \<inter> set (map items_addr rs2) \<noteq> {}"
    then obtain r1 r2 where r: "r1 \<in> set rs1" "r2 \<in> set rs2" "items_addr r1 = items_addr r2"
      by auto
    from rs1(4) r(1) obtain a1 where a1: "items_addr r1 = Some a1" "a1 < length h1" by blast
    from rs2(4) r(2) obtain a2 where a2: "items_addr r2 = Some a2" "length h1 \<le> a2" by blast
    from r(3) a1 a2 show False by simp
  qed
  then have 2: "distinct (map items_addr (rs1 @ rs2))"
    using rs1(3) rs2(3) by simp
  have 3: "\<forall>r \<in> set (rs1 @ rs2). \<exists>a. items_addr r = Some a \<and> length h \<le> a \<and> a < length h'"
  proof
    fix r assume "r \<in> set (rs1 @ rs2)"
    then consider "r \<in> set rs1" | "r \<in> set rs2" by auto
    then show "\<exists>a. items_addr r = Some a \<and> length h \<le> a \<and> a < length h'"
    proof cases
      case 1
      with rs1(4) obtain a where "items_addr r = Some a" "length h \<le> a" "a < length h1" by blast
      with l2 show ?thesis by auto
    next
      case 2
      with rs2(4) obtain a where "items_addr r = Some a" "length h1 \<le> a" "a < length h'" by blast
      with l1 show ?thesis by auto
    qed
  qed
  have 4: "results' = results @ (rs1 @ rs2)"
    by (simp add: rs2(1) rs1(1))
  have 5: "\<forall>b < length h. h' ! b = h ! b"
    using f1 f2 l1 by simp
  have 6: "length h \<le> length h'"
    using l1 l2 by simp
  from 4 1 2 3 have "\<exists>rs. results' = results @ rs \<and>
        map (deref h') rs = concat (map (group_entries (h ! arr) options) (g # gs)) \<and>
        distinct (map items_addr rs) \<and>
        (\<forall>r \<in> set rs. \<exists>a. items_addr r = Some a \<and> length h \<le> a \<and> a < length h')"
    by (intro exI [of _ "rs1 @ rs2"] conjI)
  with 6 5 ad2 show ?case
    by (intro conjI)
qed

lemma transformData_h_correct:
  assumes "arr < length h" and "transformData_h h arr options = (h', res)"
  shows "length h \<le> length h'" and "\<forall>b < length h. h' ! b = h ! b"
    and "map (deref h') res = transformData (h ! arr) options"
    and "distinct (map items_addr res)"
    and "\<forall>r \<in> set res. \<exists>a. items_addr r = Some a \<and> length h \<le> a \<and> a < length h'"
proof -
  have e: "\<forall>r \<in> set ([] :: addr Result list). addrs_of r \<subseteq> {..<length h}"
    by simp
  from assms(2) have f: "foldl (group_loop arr options) (h, []) (allGroupBy (groupBy options)) = (h', res)"
    by (simp add: transformData_h_def)
  note c = groups_loop_correct [OF assms(1) e f]
  show "length h \<le> length h'" and "\<forall>b < length h. h' ! b = h ! b"
    using c by (rule conjunct1, rule conjunct2 [THEN conjunct1])
  from c [THEN conjunct2, THEN conjunct2, THEN conjunct2] obtain rs where
    rs: "res = [] @ rs"
      "map (deref h') rs = concat (map (group_entries (h ! arr) options) (allGroupBy (groupBy options)))"
      "distinct (map items_addr rs)"
      "\<forall>r \<in> set rs. \<exists>a. items_addr r = Some a \<and> length h \<le> a \<and> a < length h'"
    by (elim exE conjE)
  from rs(1) have "res = rs" by simp
  with rs show "map (deref h') res = transformData (h ! arr) options"
    and "distinct (map items_addr res)"
    and "\<forall>r \<in> set res. \<exists>a. items_addr r = Some a \<and> length h \<le> a \<and> a < length h'"
    by (simp_all add: transformData_concat)
qed

lemma items_addr_Some: "items_addr r = Some a \<Longrightarrow> r ''items'' = Some (Items a)"
  by (auto simp: items_addr_def split: option.splits resval.splits)

lemma items_of_deref: "r ''items'' = Some (Items a) \<Longrightarrow> items_of (deref h r) = h ! a"
  by (simp add: items_of_def deref_def)

lemma entry_items_subset:
  assumes "e \<in> set (transformData arr options)"
  shows "mset (items_of e) \<subseteq># mset arr"
proof -
  from assms obtain grp k
    where e: "e = make_result options grp (k, filter (\<lambda>r. group_key grp r = k) arr)"
    unfolding in_transformData in_group_entries by blast
  show ?thesis
    unfolding e by simp
qed

subsection \<open>The tests of the repository\<close>

text \<open>The two calls of the test file return the entries of its fixtures \<^verbatim>\<open>result1\<close> and
  \<^verbatim>\<open>result2\<close>.\<close>

lemma transformData_result1:
  "map summary (transformData bookings nights_desc_options) =
     [(Some ''Hotel'', None, Some (Fin 400), None, None, [3, 1, 4], Some 3),
      (Some ''Flight'', None, Some (Fin 750), None, Some (Fin 2), [2, 5], Some 2)]"
  by code_simp

lemma transformData_result2:
  "map summary (transformData bookings answer_options) =
     [(Some ''Hotel'', None, Some (Fin 400), Some (Fin 2), None, [4, 1, 3], Some 3),
      (Some ''Flight'', None, Some (Fin 750), None, None, [2, 5], Some 2),
      (None, Some ''Bangkok'', Some (Fin 500), Some (Fin (5 / 2)), None, [5, 1, 3], Some 3),
      (None, Some ''Tokyo'', Some (Fin 450), None, None, [2], Some 1),
      (None, Some ''Dubai'', Some (Fin 200), Some (Fin 1), None, [4], Some 1)]"
  by code_simp

subsection \<open>Claims\<close>

text \<open>
  C1. The values that are aggregated are the values of the field over the records of the
  bucket, a missing value read as 0, with every 0 removed; each aggregation kind is
  computed from that list alone. A record whose field is 0 or missing changes no
  aggregate: the aggregate is that of the list without the record. For two records with
  the prices 0 and 10, the \<^verbatim>\<open>sum\<close> of the price is 10 and the \<^verbatim>\<open>count\<close> is 1.
\<close>

theorem zero_values_excluded:
  "field_values items f = filter (\<lambda>v. v \<noteq> 0) (map (\<lambda>item. get_or_zero item f) items) \<and>
   getAggregatedValue items f ''sum'' = Fin (of_int (sum_list (field_values items f))) \<and>
   getAggregatedValue items f ''avg'' =
     js_div (of_int (sum_list (field_values items f))) (of_nat (length (field_values items f))) \<and>
   getAggregatedValue items f ''min'' =
     (if field_values items f = [] then PInf else Fin (of_int (Min (set (field_values items f))))) \<and>
   getAggregatedValue items f ''max'' =
     (if field_values items f = [] then NInf else Fin (of_int (Max (set (field_values items f))))) \<and>
   getAggregatedValue items f ''count'' = Fin (of_nat (length (field_values items f))) \<and>
   (\<forall>r xs ys a. get_number r f = Some 0 \<or> get_number r f = None \<longrightarrow>
      getAggregatedValue (xs @ r # ys) f a = getAggregatedValue (xs @ ys) f a) \<and>
   (\<forall>r0 r10. price r0 = 0 \<and> price r10 = 10 \<longrightarrow>
      getAggregatedValue [r0, r10] Price ''sum'' = Fin 10 \<and>
      getAggregatedValue [r0, r10] Price ''count'' = Fin 1)"
proof -
  have rem: "getAggregatedValue (xs @ r # ys) f a = getAggregatedValue (xs @ ys) f a"
    if "get_number r f = Some 0 \<or> get_number r f = None" for r xs ys a
  proof -
    from that have "get_or_zero r f = 0"
      by (auto simp: get_or_zero_def)
    then show ?thesis by (rule getAggregatedValue_remove_zero)
  qed
  have lit: "getAggregatedValue [r0, r10] Price ''sum'' = Fin 10 \<and>
      getAggregatedValue [r0, r10] Price ''count'' = Fin 1"
    if "price r0 = 0 \<and> price r10 = 10" for r0 r10
    using that by (simp add: getAggregatedValue_kinds field_values_def get_or_zero_simps)
  show ?thesis
    using rem lit by (simp add: getAggregatedValue_kinds) (simp add: field_values_def)
qed

theorem zero_values_excluded_witness:
  "price zero_price = 0 \<and> price ten_price = 10 \<and>
   getAggregatedValue [zero_price, ten_price] Price ''sum'' = Fin 10 \<and>
   getAggregatedValue [zero_price, ten_price] Price ''count'' = Fin 1 \<and>
   get_number booking2 Nights = None \<and>
   getAggregatedValue ([booking1] @ booking2 # [booking3]) Nights ''count''
     = getAggregatedValue ([booking1] @ [booking3]) Nights ''count''"
proof -
  have h: "price zero_price = 0 \<and> price ten_price = 10"
    by (simp add: zero_price_def ten_price_def)
  have n: "get_number booking2 Nights = None"
    by code_simp
  show ?thesis
    using h n zero_values_excluded [of "[]" Nights] by blast
qed

text \<open>
  C2 (as amended). The result is the concatenation, in field-path order, of the entries of
  each field path. Within one field path the entries follow the order in which
  \<^verbatim>\<open>Object.entries\<close> lists the group keys: the keys that are array indices first, in
  ascending numeric order, then the other keys in the order in which they are first
  encountered in the input. When no group key of the path is an array index, the entries
  are in first-encounter order. The group key is the value of the entry's group field
  (unless the field path is one of the names \<^verbatim>\<open>aggregates\<close>, \<^verbatim>\<open>items\<close>, \<^verbatim>\<open>count\<close>,
  which the later properties of the literal replace).
\<close>

theorem entries_order:
  "transformData arr options =
     concat (map (\<lambda>grp. map (\<lambda>k. make_result options grp
                                   (k, filter (\<lambda>r. group_key grp r = k) arr))
                             (entry_keys arr grp))
                 (allGroupBy (groupBy options))) \<and>
   (\<forall>grp. entry_keys arr grp =
      sort_key index_value (filter is_array_index (first_seen (map (group_key grp) arr)))
      @ filter (\<lambda>k. \<not> is_array_index k) (first_seen (map (group_key grp) arr))) \<and>
   (\<forall>grp. (\<forall>r \<in> set arr. \<not> is_array_index (group_key grp r)) \<longrightarrow>
      entry_keys arr grp = first_seen (map (group_key grp) arr)) \<and>
   (\<forall>grp k bucket. grp \<notin> {''aggregates'', ''items'', ''count''} \<longrightarrow>
      key_of grp (make_result options grp (k, bucket)) = Some k)"
  using transformData_keys entry_keys_unfold entry_keys_no_index key_of_make_result
  by blast

theorem entries_order_witness:
  "map (\<lambda>r. is_array_index (group_key ''location.city'' r)) bookings
     = [False, False, False, False, False] \<and>
   entry_keys bookings ''location.city'' = [''Bangkok'', ''Tokyo'', ''Dubai''] \<and>
   map (key_of ''location.city'') (transformData bookings answer_options)
     = [None, None, Some ''Bangkok'', Some ''Tokyo'', Some ''Dubai'']"
proof -
  have h: "\<forall>r \<in> set bookings. \<not> is_array_index (group_key ''location.city'' r)"
    by code_simp
  have "entry_keys bookings ''location.city'' = first_seen (map (group_key ''location.city'') bookings)"
    using entries_order [of bookings answer_options] h by blast
  moreover have "first_seen (map (group_key ''location.city'') bookings) = [''Bangkok'', ''Tokyo'', ''Dubai'']"
    by code_simp
  moreover have "map (key_of ''location.city'') (transformData bookings answer_options)
     = [None, None, Some ''Bangkok'', Some ''Tokyo'', Some ''Dubai'']"
    by code_simp
  moreover have "map (\<lambda>r. is_array_index (group_key ''location.city'' r)) bookings
     = [False, False, False, False, False]"
    by code_simp
  ultimately show ?thesis by simp
qed

theorem entries_order_counterexample:
  "map (group_key ''price'') bookings = [''120'', ''450'', ''80'', ''200'', ''300''] \<and>
   map (key_of ''price'') (transformData bookings price_options)
     = [Some ''80'', Some ''120'', Some ''200'', Some ''300'', Some ''450''] \<and>
   map (key_of ''price'') (transformData bookings price_options)
     \<noteq> map Some (first_seen (map (group_key ''price'') bookings))"
  by code_simp

text \<open>
  C3. For one field path, the items of the entries add up to the input as a multiset, the
  items of two different entries share no booking, and every booking of the input is
  in the items of exactly one entry. The result for several paths is the concatenation
  of the entries of each path, each computed from the whole input, so a booking is in
  one entry per path.
\<close>

theorem grouping_partition:
  "sum_list (map (\<lambda>e. mset (items_of e)) (group_entries arr options grp)) = mset arr \<and>
   (\<forall>i j. i < j \<and> j < length (group_entries arr options grp) \<longrightarrow>
      set (items_of (group_entries arr options grp ! i))
        \<inter> set (items_of (group_entries arr options grp ! j)) = {}) \<and>
   (\<forall>r \<in> set arr.
      length (filter (\<lambda>e. r \<in> set (items_of e)) (group_entries arr options grp)) = 1) \<and>
   transformData arr options =
     concat (map (group_entries arr options) (allGroupBy (groupBy options)))"
  using group_entries_mset group_entries_disjoint group_entries_containing transformData_concat
  by blast

theorem grouping_partition_witness:
  "(0::nat) < 1 \<and> 1 < length (group_entries bookings answer_options ''category'') \<and>
   map booking_id (items_of (group_entries bookings answer_options ''category'' ! 0)) = [4, 1, 3] \<and>
   map booking_id (items_of (group_entries bookings answer_options ''category'' ! 1)) = [2, 5] \<and>
   set (items_of (group_entries bookings answer_options ''category'' ! 0))
     \<inter> set (items_of (group_entries bookings answer_options ''category'' ! 1)) = {} \<and>
   length (filter (\<lambda>e. booking5 \<in> set (items_of e))
             (group_entries bookings answer_options ''category'')) = 1 \<and>
   length (filter (\<lambda>e. booking5 \<in> set (items_of e))
             (transformData bookings answer_options)) = 2"
proof -
  have h: "(0::nat) < 1 \<and> 1 < length (group_entries bookings answer_options ''category'')"
    by code_simp
  have m: "booking5 \<in> set bookings"
    by (simp add: bookings_def)
  have "map booking_id (items_of (group_entries bookings answer_options ''category'' ! 0)) = [4, 1, 3]"
    by code_simp
  moreover have "map booking_id (items_of (group_entries bookings answer_options ''category'' ! 1)) = [2, 5]"
    by code_simp
  moreover have "length (filter (\<lambda>e. booking5 \<in> set (items_of e))
             (transformData bookings answer_options)) = 2"
    by code_simp
  ultimately show ?thesis
    using h m grouping_partition [of bookings answer_options "''category''"] by blast
qed

text \<open>
  C4. Every entry \<^verbatim>\<open>transformData\<close> returns has an \<^verbatim>\<open>items\<close> list and a \<^verbatim>\<open>count\<close>, and the
  count is the length of the items list.
\<close>

theorem count_is_items_length:
  "\<forall>e \<in> set (transformData arr options).
     e ''items'' = Some (Items (items_of e)) \<and> e ''count'' = Some (Count (length (items_of e)))"
  by (auto simp: in_transformData group_entries_def make_result_count make_result_items_prop)

theorem count_is_items_length_witness:
  "length (transformData bookings answer_options) = 5 \<and>
   (transformData bookings answer_options ! 0) ''count''
     = Some (Count (length (items_of (transformData bookings answer_options ! 0)))) \<and>
   length (items_of (transformData bookings answer_options ! 0)) = 3"
proof -
  have len: "length (transformData bookings answer_options) = 5"
    by code_simp
  then have "transformData bookings answer_options ! 0 \<in> set (transformData bookings answer_options)"
    by simp
  then have "(transformData bookings answer_options ! 0) ''count''
     = Some (Count (length (items_of (transformData bookings answer_options ! 0))))"
    using count_is_items_length [of bookings answer_options] by blast
  moreover have "length (items_of (transformData bookings answer_options ! 0)) = 3"
    by code_simp
  ultimately show ?thesis using len by simp
qed

text \<open>
  C5. When no value of the field is left after the zeros are removed, \<^verbatim>\<open>sum\<close> is 0,
  \<^verbatim>\<open>avg\<close> is not-a-number, \<^verbatim>\<open>min\<close> is \<open>+\<infinity>\<close>, \<^verbatim>\<open>max\<close> is \<open>-\<infinity>\<close> and \<^verbatim>\<open>count\<close> is 0.
\<close>

theorem empty_values_aggregates:
  "field_values items f = [] \<Longrightarrow>
     getAggregatedValue items f ''sum'' = Fin 0 \<and>
     getAggregatedValue items f ''avg'' = NaN \<and>
     getAggregatedValue items f ''min'' = PInf \<and>
     getAggregatedValue items f ''max'' = NInf \<and>
     getAggregatedValue items f ''count'' = Fin 0"
  by (simp add: getAggregatedValue_def js_div_def Math_min_def Math_max_def)

theorem empty_values_aggregates_witness:
  "field_values [booking2, booking5] Nights = [] \<and>
   getAggregatedValue [booking2, booking5] Nights ''sum'' = Fin 0 \<and>
   getAggregatedValue [booking2, booking5] Nights ''avg'' = NaN \<and>
   getAggregatedValue [booking2, booking5] Nights ''min'' = PInf \<and>
   getAggregatedValue [booking2, booking5] Nights ''max'' = NInf \<and>
   getAggregatedValue [booking2, booking5] Nights ''count'' = Fin 0"
proof -
  have h: "field_values [booking2, booking5] Nights = []"
    by code_simp
  show ?thesis
    using h empty_values_aggregates [OF h] by simp
qed

text \<open>
  C6. The items of every entry are in ascending (respectively descending) order of the
  value of the sort field, a missing value read as 0. The sort is stable: the items of
  one sort value are in the order they have in the input. When the sort field is
  missing in every item of the entry, the items are in input order.
\<close>

theorem items_sorted_stable:
  "\<forall>e \<in> set (transformData arr options).
     (order (sortBy options) = asc \<longrightarrow>
        sorted (map (\<lambda>r. get_or_zero r (field (sortBy options))) (items_of e))) \<and>
     (order (sortBy options) = desc \<longrightarrow>
        sorted (rev (map (\<lambda>r. get_or_zero r (field (sortBy options))) (items_of e)))) \<and>
     (\<forall>v. filter (\<lambda>r. get_or_zero r (field (sortBy options)) = v) (items_of e)
          = filter (\<lambda>r. get_or_zero r (field (sortBy options)) = v)
              (filter (\<lambda>r. r \<in> set (items_of e)) arr)) \<and>
     ((\<forall>r \<in> set (items_of e). get_number r (field (sortBy options)) = None) \<longrightarrow>
        items_of e = filter (\<lambda>r. r \<in> set (items_of e)) arr)"
proof
  fix e assume "e \<in> set (transformData arr options)"
  then obtain grp k where e: "e = make_result options grp (k, filter (\<lambda>r. group_key grp r = k) arr)"
    unfolding in_transformData in_group_entries by blast
  let ?bucket = "filter (\<lambda>r. group_key grp r = k) arr"
  have b: "filter (\<lambda>r. r \<in> set (items_of e)) arr = ?bucket"
    using e by (rule bucket_from_items)
  have i: "items_of e = Array_sort (compare_items (sortBy options)) ?bucket"
    using e by simp
  have s: "set (items_of e) = set ?bucket"
    unfolding i by (rule set_Array_sort_compare_items)
  note sb = sorted_bucket [where sb = "sortBy options" and bucket = ?bucket, folded i]
  have 1: "order (sortBy options) = asc \<longrightarrow>
        sorted (map (\<lambda>r. get_or_zero r (field (sortBy options))) (items_of e))"
    by (rule sb(1))
  have 2: "order (sortBy options) = desc \<longrightarrow>
        sorted (rev (map (\<lambda>r. get_or_zero r (field (sortBy options))) (items_of e)))"
    by (rule sb(2))
  have 3: "filter (\<lambda>r. get_or_zero r (field (sortBy options)) = v) (items_of e)
          = filter (\<lambda>r. get_or_zero r (field (sortBy options)) = v)
              (filter (\<lambda>r. r \<in> set (items_of e)) arr)" for v
    unfolding b by (rule sb(3))
  have 4: "(\<forall>r \<in> set (items_of e). get_number r (field (sortBy options)) = None) \<longrightarrow>
        items_of e = filter (\<lambda>r. r \<in> set (items_of e)) arr"
    unfolding b using sb(4) s by simp
  from 1 2 3 4
  show "(order (sortBy options) = asc \<longrightarrow>
        sorted (map (\<lambda>r. get_or_zero r (field (sortBy options))) (items_of e))) \<and>
     (order (sortBy options) = desc \<longrightarrow>
        sorted (rev (map (\<lambda>r. get_or_zero r (field (sortBy options))) (items_of e)))) \<and>
     (\<forall>v. filter (\<lambda>r. get_or_zero r (field (sortBy options)) = v) (items_of e)
          = filter (\<lambda>r. get_or_zero r (field (sortBy options)) = v)
              (filter (\<lambda>r. r \<in> set (items_of e)) arr)) \<and>
     ((\<forall>r \<in> set (items_of e). get_number r (field (sortBy options)) = None) \<longrightarrow>
        items_of e = filter (\<lambda>r. r \<in> set (items_of e)) arr)"
    by blast
qed

theorem items_sorted_stable_witness:
  "length (transformData bookings nights_desc_options) = 2 \<and>
   order (sortBy nights_desc_options) = desc \<and>
   map booking_id (items_of (transformData bookings nights_desc_options ! 0)) = [3, 1, 4] \<and>
   sorted (rev (map (\<lambda>r. get_or_zero r (field (sortBy nights_desc_options)))
                    (items_of (transformData bookings nights_desc_options ! 0)))) \<and>
   map (\<lambda>r. get_number r (field (sortBy nights_desc_options)))
       (items_of (transformData bookings nights_desc_options ! 1)) = [None, None] \<and>
   items_of (transformData bookings nights_desc_options ! 1)
     = filter (\<lambda>r. r \<in> set (items_of (transformData bookings nights_desc_options ! 1))) bookings \<and>
   map booking_id (items_of (transformData bookings nights_desc_options ! 1)) = [2, 5]"
proof -
  let ?res = "transformData bookings nights_desc_options"
  have len: "length ?res = 2" by code_simp
  have d: "order (sortBy nights_desc_options) = desc" by code_simp
  have m0: "?res ! 0 \<in> set ?res" and m1: "?res ! 1 \<in> set ?res"
    using len by simp_all
  have a: "\<forall>r \<in> set (items_of (?res ! 1)). get_number r (field (sortBy nights_desc_options)) = None"
    by code_simp
  have i0: "map booking_id (items_of (?res ! 0)) = [3, 1, 4]" by code_simp
  have i1: "map booking_id (items_of (?res ! 1)) = [2, 5]" by code_simp
  note t = items_sorted_stable [of bookings nights_desc_options, rule_format]
  have "sorted (rev (map (\<lambda>r. get_or_zero r (field (sortBy nights_desc_options))) (items_of (?res ! 0))))"
    using t [OF m0] d by blast
  moreover have "items_of (?res ! 1) = filter (\<lambda>r. r \<in> set (items_of (?res ! 1))) bookings"
    using t [OF m1] a by blast
  moreover have "map (\<lambda>r. get_number r (field (sortBy nights_desc_options)))
       (items_of (?res ! 1)) = [None, None]"
    by code_simp
  ultimately show ?thesis
    using len d i0 i1 by blast
qed

text \<open>
  C7. The \<^verbatim>\<open>aggregates\<close> object of every entry has the field \<^verbatim>\<open>price\<close>, \<^verbatim>\<open>nights\<close> or
  \<^verbatim>\<open>passengers\<close> exactly when the aggregations map the field to a kind and the value
  computed for the bucket (the entry's items in input order) is truthy, and then holds
  that value; it has no other field.
\<close>

theorem aggregates_fields:
  "\<forall>e \<in> set (transformData arr options).
     e ''aggregates'' = Some (Aggs (aggregates_of e)) \<and>
     (\<forall>f. aggregates_of e (field_name f) =
        (case aggregations options (field_name f) of
           None \<Rightarrow> None
         | Some a \<Rightarrow>
             if truthy (getAggregatedValue (filter (\<lambda>r. r \<in> set (items_of e)) arr) f a)
             then Some (getAggregatedValue (filter (\<lambda>r. r \<in> set (items_of e)) arr) f a)
             else None)) \<and>
     (\<forall>name. name \<notin> {''price'', ''nights'', ''passengers''} \<longrightarrow> aggregates_of e name = None)"
  using entry_aggregate by blast

theorem aggregates_fields_witness:
  "length (transformData bookings answer_options) = 5 \<and>
   aggregates_of (transformData bookings answer_options ! 1) ''price'' = Some (Fin 750) \<and>
   getAggregatedValue
      (filter (\<lambda>r. r \<in> set (items_of (transformData bookings answer_options ! 1))) bookings)
      Nights ''avg'' = NaN \<and>
   aggregates_of (transformData bookings answer_options ! 1) ''nights'' = None \<and>
   aggregates_of (transformData bookings answer_options ! 1) ''passengers'' = None \<and>
   aggregates_of (transformData bookings answer_options ! 1) ''count'' = None"
proof -
  let ?res = "transformData bookings answer_options"
  have len: "length ?res = 5" by code_simp
  then have m: "?res ! 1 \<in> set ?res" by simp
  have c: "''count'' \<notin> {''price'', ''nights'', ''passengers''}" by simp
  have p: "aggregates_of (?res ! 1) ''price'' = Some (Fin 750)" by code_simp
  have n: "getAggregatedValue (filter (\<lambda>r. r \<in> set (items_of (?res ! 1))) bookings) Nights ''avg'' = NaN"
    by code_simp
  have ag: "aggregations answer_options ''nights'' = Some ''avg''"
    "aggregations answer_options ''passengers'' = None"
    by (simp_all add: answer_options_def)
  note t0 = aggregates_fields [of bookings answer_options, THEN bspec, OF m]
  note t = t0 [THEN conjunct2, THEN conjunct1]
  note u = t0 [THEN conjunct2, THEN conjunct2]
  have "aggregates_of (?res ! 1) (field_name Nights) = None"
    using t [rule_format, of Nights]
    unfolding field_name.simps ag option.case n truthy.simps if_False .
  moreover have "aggregates_of (?res ! 1) (field_name Passengers) = None"
    using t [rule_format, of Passengers]
    unfolding field_name.simps ag option.case .
  moreover have "aggregates_of (?res ! 1) ''count'' = None"
    using u [rule_format, of "''count''", OF c] .
  ultimately show ?thesis
    using len p n c by (simp del: One_nat_def)
qed

text \<open>
  C8. A booking for which the group-by field path resolves to \<^verbatim>\<open>undefined\<close> has the
  group key \<^verbatim>\<open>"undefined"\<close>; \<^verbatim>\<open>groupBy\<close> holds one bucket under that key, the bucket
  contains the booking, and its entry is part of the result like that of any other
  bucket.
\<close>

theorem missing_path_key:
  assumes "r \<in> set arr" and "get r grp = Undefined"
    and "grp \<in> set (allGroupBy (groupBy options))"
  shows "group_key grp r = ''undefined'' \<and>
     r \<in> set (filter (\<lambda>x. group_key grp x = ''undefined'') arr) \<and>
     (''undefined'', filter (\<lambda>x. group_key grp x = ''undefined'') arr)
        \<in> set (lGroupBy arr (\<lambda>obj. get obj grp)) \<and>
     distinct (map fst (lGroupBy arr (\<lambda>obj. get obj grp))) \<and>
     make_result options grp (''undefined'', filter (\<lambda>x. group_key grp x = ''undefined'') arr)
        \<in> set (transformData arr options) \<and>
     r \<in> set (items_of (make_result options grp
                  (''undefined'', filter (\<lambda>x. group_key grp x = ''undefined'') arr))) \<and>
     (grp \<notin> {''aggregates'', ''items'', ''count''} \<longrightarrow>
        key_of grp (make_result options grp
                  (''undefined'', filter (\<lambda>x. group_key grp x = ''undefined'') arr))
          = Some ''undefined'')"
proof -
  have k: "group_key grp r = ''undefined''"
    using assms(2) by (rule group_key_undefined)
  then have mem: "''undefined'' \<in> group_key grp ` set arr"
    using assms(1) by (metis imageI)
  have "(''undefined'', filter (\<lambda>x. group_key grp x = ''undefined'') arr)
        \<in> set (lGroupBy arr (\<lambda>obj. get obj grp))"
    using mem by (simp add: lGroupBy_group_key image_iff)
  moreover have "distinct (map fst (lGroupBy arr (\<lambda>obj. get obj grp)))"
    by (simp add: lGroupBy_group_key comp_def)
  moreover have "make_result options grp (''undefined'', filter (\<lambda>x. group_key grp x = ''undefined'') arr)
        \<in> set (transformData arr options)"
  proof -
    have "make_result options grp (''undefined'', filter (\<lambda>x. group_key grp x = ''undefined'') arr)
        \<in> set (group_entries arr options grp)"
      unfolding in_group_entries using mem by blast
    then show ?thesis
      unfolding in_transformData using assms(3) by blast
  qed
  ultimately show ?thesis
    using k assms(1) by (simp add: key_of_make_result)
qed

theorem missing_path_key_witness:
  "booking2 \<in> set bookings \<and> get booking2 ''nights'' = Undefined \<and>
   ''nights'' \<in> set (allGroupBy (groupBy nights_options)) \<and>
   map (key_of ''nights'') (transformData bookings nights_options)
     = [Some ''1'', Some ''2'', Some ''3'', Some ''undefined''] \<and>
   key_of ''nights'' (make_result nights_options ''nights''
       (''undefined'', filter (\<lambda>x. group_key ''nights'' x = ''undefined'') bookings))
     = Some ''undefined'' \<and>
   booking2 \<in> set (items_of (make_result nights_options ''nights''
       (''undefined'', filter (\<lambda>x. group_key ''nights'' x = ''undefined'') bookings)))"
proof -
  have h1: "booking2 \<in> set bookings" by (simp add: bookings_def)
  have h2: "get booking2 ''nights'' = Undefined" by code_simp
  have h3: "''nights'' \<in> set (allGroupBy (groupBy nights_options))" by code_simp
  have h4: "''nights'' \<notin> {''aggregates'', ''items'', ''count''}" by simp
  have "map (key_of ''nights'') (transformData bookings nights_options)
     = [Some ''1'', Some ''2'', Some ''3'', Some ''undefined'']"
    by code_simp
  then show ?thesis
    using h1 h2 h3 h4 missing_path_key [OF h1 h2 h3] by simp
qed

text \<open>
  C9. In the store model, a call leaves every array that existed before it unchanged, the
  input array in particular: same bookings, same order. Each entry's \<^verbatim>\<open>items\<close> is an
  array created during the call, no two entries share one, and it holds bookings of the
  input (a sub-multiset of it, in the sorted order of the value model). Read through the
  final store, the entries are those of the value model \<open>transformData\<close>.
\<close>

theorem input_not_mutated:
  assumes "arr < length h" and "transformData_h h arr options = (h', res)"
  shows "h' ! arr = h ! arr \<and> (\<forall>b < length h. h' ! b = h ! b) \<and> length h \<le> length h' \<and>
     map (deref h') res = transformData (h ! arr) options \<and>
     distinct (map items_addr res) \<and>
     (\<forall>r \<in> set res. \<exists>a. r ''items'' = Some (Items a) \<and> length h \<le> a \<and> a < length h' \<and>
        mset (h' ! a) \<subseteq># mset (h ! arr))"
proof -
  note c = transformData_h_correct [OF assms]
  have 1: "h' ! arr = h ! arr"
    using c(2) assms(1) by simp
  have 2: "\<forall>r \<in> set res. \<exists>a. r ''items'' = Some (Items a) \<and> length h \<le> a \<and> a < length h' \<and>
        mset (h' ! a) \<subseteq># mset (h ! arr)"
  proof
    fix r assume r: "r \<in> set res"
    with c(5) obtain a where a: "items_addr r = Some a" "length h \<le> a" "a < length h'"
      by blast
    then have i: "r ''items'' = Some (Items a)"
      by (simp add: items_addr_Some)
    have "deref h' r \<in> set (map (deref h') res)"
      using r by simp
    then have "deref h' r \<in> set (transformData (h ! arr) options)"
      by (simp only: c(3))
    then have "mset (items_of (deref h' r)) \<subseteq># mset (h ! arr)"
      by (rule entry_items_subset)
    then have "mset (h' ! a) \<subseteq># mset (h ! arr)"
      using items_of_deref [of r a h'] i by simp
    with i a show "\<exists>a. r ''items'' = Some (Items a) \<and> length h \<le> a \<and> a < length h' \<and>
        mset (h' ! a) \<subseteq># mset (h ! arr)"
      by blast
  qed
  from 1 2 c(1,2,3,4) show ?thesis
    by (intro conjI)
qed

theorem input_not_mutated_witness:
  "(0::nat) < length [bookings] \<and>
   fst (transformData_h [bookings] 0 answer_options) ! 0 = [bookings] ! 0 \<and>
   map (map booking_id) (fst (transformData_h [bookings] 0 answer_options))
     = [[1, 2, 3, 4, 5], [4, 1, 3], [2, 5], [5, 1, 3], [2], [4]] \<and>
   map items_addr (snd (transformData_h [bookings] 0 answer_options))
     = [Some 1, Some 2, Some 3, Some 4, Some 5]"
proof -
  have h: "(0::nat) < length [bookings]" by simp
  have p: "transformData_h [bookings] 0 answer_options
      = (fst (transformData_h [bookings] 0 answer_options),
         snd (transformData_h [bookings] 0 answer_options))"
    by (rule prod.collapse [symmetric])
  have "fst (transformData_h [bookings] 0 answer_options) ! 0 = [bookings] ! 0"
    using input_not_mutated [OF h p] by (rule conjunct1)
  moreover have "map (map booking_id) (fst (transformData_h [bookings] 0 answer_options))
     = [[1, 2, 3, 4, 5], [4, 1, 3], [2, 5], [5, 1, 3], [2], [4]]"
    by code_simp
  moreover have "map items_addr (snd (transformData_h [bookings] 0 answer_options))
     = [Some 1, Some 2, Some 3, Some 4, Some 5]"
    by code_simp
  ultimately show ?thesis
    using h by (intro conjI)
qed

text \<open>
  C10. When the field is missing or 0 in every item of an entry, an aggregation of kind
  \<^verbatim>\<open>min\<close> puts the field into the entry's \<^verbatim>\<open>aggregates\<close> with the value \<open>+\<infinity>\<close> and one of
  kind \<^verbatim>\<open>max\<close> with \<open>-\<infinity>\<close>, whereas \<^verbatim>\<open>sum\<close>, \<^verbatim>\<open>count\<close> and \<^verbatim>\<open>avg\<close> leave the field out.
\<close>

theorem empty_min_max_included:
  "\<forall>e \<in> set (transformData arr options). \<forall>f.
     (\<forall>r \<in> set (items_of e). get_number r f = None \<or> get_number r f = Some 0) \<longrightarrow>
       (aggregations options (field_name f) = Some ''min'' \<longrightarrow>
          aggregates_of e (field_name f) = Some PInf) \<and>
       (aggregations options (field_name f) = Some ''max'' \<longrightarrow>
          aggregates_of e (field_name f) = Some NInf) \<and>
       (aggregations options (field_name f) = Some ''sum'' \<longrightarrow>
          aggregates_of e (field_name f) = None) \<and>
       (aggregations options (field_name f) = Some ''count'' \<longrightarrow>
          aggregates_of e (field_name f) = None) \<and>
       (aggregations options (field_name f) = Some ''avg'' \<longrightarrow>
          aggregates_of e (field_name f) = None)"
proof (intro ballI allI impI)
  fix e f
  assume e: "e \<in> set (transformData arr options)"
    and z: "\<forall>r \<in> set (items_of e). get_number r f = None \<or> get_number r f = Some 0"
  let ?bucket = "filter (\<lambda>r. r \<in> set (items_of e)) arr"
  have "set ?bucket = set (items_of e)"
    using e by (rule entry_aggregate(4))
  with z have "field_values ?bucket f = []"
    by (intro field_values_all_zero) simp
  then have v: "getAggregatedValue ?bucket f ''min'' = PInf"
    "getAggregatedValue ?bucket f ''max'' = NInf"
    "getAggregatedValue ?bucket f ''sum'' = Fin 0"
    "getAggregatedValue ?bucket f ''count'' = Fin 0"
    "getAggregatedValue ?bucket f ''avg'' = NaN"
    by (simp_all add: getAggregatedValue_kinds js_div_def)
  note a = entry_aggregate(1) [OF e, of f]
  show "(aggregations options (field_name f) = Some ''min'' \<longrightarrow>
          aggregates_of e (field_name f) = Some PInf) \<and>
       (aggregations options (field_name f) = Some ''max'' \<longrightarrow>
          aggregates_of e (field_name f) = Some NInf) \<and>
       (aggregations options (field_name f) = Some ''sum'' \<longrightarrow>
          aggregates_of e (field_name f) = None) \<and>
       (aggregations options (field_name f) = Some ''count'' \<longrightarrow>
          aggregates_of e (field_name f) = None) \<and>
       (aggregations options (field_name f) = Some ''avg'' \<longrightarrow>
          aggregates_of e (field_name f) = None)"
    using a v by simp
qed

theorem empty_min_max_included_witness:
  "length (transformData bookings min_max_options) = 2 \<and>
   map (\<lambda>r. get_number r Nights) (items_of (transformData bookings min_max_options ! 1))
     = [None, None] \<and>
   aggregations min_max_options (field_name Nights) = Some ''min'' \<and>
   aggregates_of (transformData bookings min_max_options ! 1) (field_name Nights) = Some PInf \<and>
   map (\<lambda>r. get_number r Passengers) (items_of (transformData bookings min_max_options ! 0))
     = [None, None, None] \<and>
   aggregations min_max_options (field_name Passengers) = Some ''max'' \<and>
   aggregates_of (transformData bookings min_max_options ! 0) (field_name Passengers) = Some NInf"
proof -
  let ?res = "transformData bookings min_max_options"
  have len: "length ?res = 2" by code_simp
  then have m0: "?res ! 0 \<in> set ?res" and m1: "?res ! 1 \<in> set ?res" by simp_all
  have z1: "\<forall>r \<in> set (items_of (?res ! 1)). get_number r Nights = None \<or> get_number r Nights = Some 0"
    by code_simp
  have z0: "\<forall>r \<in> set (items_of (?res ! 0)).
      get_number r Passengers = None \<or> get_number r Passengers = Some 0"
    by code_simp
  have a1: "aggregations min_max_options (field_name Nights) = Some ''min''"
    by (simp add: min_max_options_def)
  have a0: "aggregations min_max_options (field_name Passengers) = Some ''max''"
    by (simp add: min_max_options_def)
  note t1 = empty_min_max_included [of bookings min_max_options, THEN bspec, OF m1,
      THEN spec, of Nights, THEN mp, OF z1]
  note t0 = empty_min_max_included [of bookings min_max_options, THEN bspec, OF m0,
      THEN spec, of Passengers, THEN mp, OF z0]
  have "aggregates_of (?res ! 1) (field_name Nights) = Some PInf"
    using t1 [THEN conjunct1, THEN mp, OF a1] .
  moreover have "aggregates_of (?res ! 0) (field_name Passengers) = Some NInf"
    using t0 [THEN conjunct2, THEN conjunct1, THEN mp, OF a0] .
  moreover have "map (\<lambda>r. get_number r Nights) (items_of (?res ! 1)) = [None, None]"
    by code_simp
  moreover have "map (\<lambda>r. get_number r Passengers) (items_of (?res ! 0)) = [None, None, None]"
    by code_simp
  ultimately show ?thesis
    using len a0 a1 by blast
qed

end
